theory Spec2Isabelle
  imports Main "HOL-Library.Sublist"
begin

section \<open>Data model\<close>

text \<open>
  \<^verbatim>\<open>v1beta1.Dependency\<close>: the package reference, the package type and the
  version constraint. The Go type \<^verbatim>\<open>PackageType\<close> is a string type; the zero value
  \<^verbatim>\<open>v1beta1.Dependency{}\<close> has three empty strings.
\<close>

type_synonym PackageType = string

record Dependency =
  Package :: string
  Type :: PackageType
  Constraints :: string

definition zero_Dependency :: Dependency where
  "zero_Dependency = \<lparr>Package = [], Type = [], Constraints = []\<rparr>"

text \<open>
  \<^verbatim>\<open>schema.GroupVersionKind\<close> is a comparable struct of three strings and is the key
  of the validator maps. A \<^verbatim>\<open>*validate.SchemaValidator\<close> is a pointer to an opaque
  object; it is modelled by its address.
\<close>

record GroupVersionKind =
  Group :: string
  Version_gvk :: string
  Kind :: string

type_synonym SchemaValidator = nat

text \<open>
  \<^verbatim>\<open>xpkg.ParsedPackage\<close> is read by the Manager only through its accessor methods
  \<^verbatim>\<open>Type()\<close>, \<^verbatim>\<open>Version()\<close>, \<^verbatim>\<open>Digest()\<close>, \<^verbatim>\<open>Dependencies()\<close> and
  \<^verbatim>\<open>Validators()\<close>; the record has one field for each of them. \<^verbatim>\<open>Validators()\<close>
  is a Go map and is modelled as a HOL map.
\<close>

record ParsedPackage =
  PkgType :: PackageType
  Version :: string
  Digest :: string
  Dependencies :: "Dependency list"
  Validators :: "GroupVersionKind \<rightharpoonup> SchemaValidator"

text \<open>
  Go errors. The Manager inspects an error only with \<^verbatim>\<open>os.IsNotExist\<close>; every
  other error is passed on untouched. The string is the message of the error.
\<close>

datatype error = NotExist string | Failure string

fun IsNotExist :: "error \<Rightarrow> bool" where
  "IsNotExist (NotExist m) = True"
| "IsNotExist (Failure m) = False"

type_synonym Image = string

section \<open>The collaborators of the Manager\<close>

text \<open>
  The interfaces \<^verbatim>\<open>Cache\<close>, \<^verbatim>\<open>ImageResolver\<close> and \<^verbatim>\<open>XpkgMarshaler\<close> are fields
  \<^verbatim>\<open>c\<close>, \<^verbatim>\<open>i\<close> and \<^verbatim>\<open>x\<close> of the Manager. Their implementations are outside
  the Manager, so their methods are parameters of the model. The cache is the only
  collaborator the Manager writes to: its contents have type \<open>'c\<close>, \<^verbatim>\<open>Get\<close> reads
  them and \<^verbatim>\<open>Store\<close> returns the new contents together with its error (if any).
  The registry behind the resolver is not changed by the Manager, so the three resolver
  methods and the marshaler are functions of their arguments.
\<close>

record 'c Collaborators =
  Get :: "'c \<Rightarrow> Dependency \<Rightarrow> error + ParsedPackage"
  Store :: "'c \<Rightarrow> Dependency \<Rightarrow> ParsedPackage \<Rightarrow> error option \<times> 'c"
  ResolveTag :: "Dependency \<Rightarrow> error + string"
  ResolveDigest :: "Dependency \<Rightarrow> error + string"
  ResolveImage :: "Dependency \<Rightarrow> error + (string \<times> Image)"
  FromImage :: "string \<Rightarrow> string \<Rightarrow> Image \<Rightarrow> error + ParsedPackage"

text \<open>
  Every call the Manager makes on a collaborator is recorded, in order, so that
  statements such as "no fetch is made" and "the tag is resolved before the cache is
  read" can be written down. The record of calls does not influence any result.
\<close>

datatype call =
    CallResolveTag Dependency
  | CallGet Dependency
  | CallResolveDigest Dependency
  | CallResolveImage Dependency
  | CallFromImage string string Image
  | CallStore Dependency ParsedPackage

text \<open>
  The mutable state reached from a \<^verbatim>\<open>*Manager\<close>: the contents of the cache behind
  \<^verbatim>\<open>m.c\<close>, the accumulator \<^verbatim>\<open>m.acc\<close>, and the calls made so far.
\<close>

record 'c Manager =
  m_c :: 'c
  m_acc :: "ParsedPackage list"
  m_calls :: "call list"

definition logcall :: "call \<Rightarrow> 'c Manager \<Rightarrow> 'c Manager" where
  "logcall ev m = m\<lparr>m_calls := m_calls m @ [ev]\<rparr>"

section \<open>The Manager\<close>

text \<open>\<^verbatim>\<open>finalizeDepVersion\<close>: the dependency is passed by pointer and updated in place;
  the model returns the updated dependency.\<close>

definition finalizeDepVersion ::
  "'c Collaborators \<Rightarrow> Dependency \<Rightarrow> 'c Manager \<Rightarrow> (error + Dependency) \<times> 'c Manager" where
  "finalizeDepVersion env d m =
     (let m1 = logcall (CallResolveTag d) m in
      case ResolveTag env d of
        Inl err \<Rightarrow> (Inl err, m1)
      | Inr v \<Rightarrow> (Inr (d\<lparr>Constraints := v\<rparr>), m1))"

definition addPkg ::
  "'c Collaborators \<Rightarrow> Dependency \<Rightarrow> 'c Manager \<Rightarrow> (error + ParsedPackage) \<times> 'c Manager" where
  "addPkg env d m =
     (let m1 = logcall (CallResolveImage d) m in
      case ResolveImage env d of
        Inl err \<Rightarrow> (Inl err, m1)
      | Inr (t, i) \<Rightarrow>
          (let m2 = logcall (CallFromImage (Package d) t i) m1 in
           case FromImage env (Package d) t i of
             Inl err \<Rightarrow> (Inl err, m2)
           | Inr p \<Rightarrow>
               (case Store env (m_c m2) d p of
                  (Some err, c') \<Rightarrow> (Inl err, logcall (CallStore d p) (m2\<lparr>m_c := c'\<rparr>))
                | (None, c') \<Rightarrow> (Inr p, logcall (CallStore d p) (m2\<lparr>m_c := c'\<rparr>)))))"

definition retrievePkg ::
  "'c Collaborators \<Rightarrow> Dependency \<Rightarrow> 'c Manager \<Rightarrow> (error + ParsedPackage) \<times> 'c Manager" where
  "retrievePkg env d0 m =
     (case finalizeDepVersion env d0 m of
        (Inl err, m1) \<Rightarrow> (Inl err, m1)
      | (Inr d, m1) \<Rightarrow>
          (let m2 = logcall (CallGet d) m1 in
           case Get env (m_c m2) d of
             Inl err \<Rightarrow>
               (if \<not> IsNotExist err then (Inl err, m2)
                else addPkg env d m2)
           | Inr p \<Rightarrow>
               (let m3 = logcall (CallResolveDigest d) m2 in
                case ResolveDigest env d of
                  Inl err \<Rightarrow> (Inl err, m3)
                | Inr digest \<Rightarrow>
                    (if Digest p \<noteq> digest then addPkg env d m3
                     else (Inr p, m3)))))"

text \<open>
  \<^verbatim>\<open>resolveAllDeps\<close> calls itself inside its loop over \<^verbatim>\<open>p.Dependencies()\<close>, and
  nothing bounds the depth of the recursion, so the loop is a partial function: the
  value \<open>None\<close> means that the call does not return. \<open>resolveAllDeps_loop env ds m\<close>
  is the \<^verbatim>\<open>for\<close> loop over the remaining dependencies \<open>ds\<close>; the recursive call
  \<^verbatim>\<open>m.resolveAllDeps(ctx, e)\<close> is written out as its body (the length test, then the
  loop over the dependencies of \<open>e\<close>). The result \<open>Some (None, m')\<close> is the Go result
  \<^verbatim>\<open>nil\<close>, and \<open>Some (Some err, m')\<close> is the error \<open>err\<close>.
\<close>

partial_function (option) resolveAllDeps_loop ::
  "'c Collaborators \<Rightarrow> Dependency list \<Rightarrow> 'c Manager \<Rightarrow> (error option \<times> 'c Manager) option" where
  "resolveAllDeps_loop env ds m =
     (case ds of
        [] \<Rightarrow> Some (None, m)
      | d # ds' \<Rightarrow>
          (case retrievePkg env d m of
             (Inl err, m1) \<Rightarrow> Some (Some err, m1)
           | (Inr e, m1) \<Rightarrow>
               Option.bind
                 (let m2 = m1\<lparr>m_acc := m_acc m1 @ [e]\<rparr> in
                  if length (Dependencies e) = 0 then Some (None, m2)
                  else resolveAllDeps_loop env (Dependencies e) m2)
                 (\<lambda>r. case r of
                    (Some err, m3) \<Rightarrow> Some (Some err, m3)
                  | (None, m3) \<Rightarrow> resolveAllDeps_loop env ds' m3)))"

definition resolveAllDeps ::
  "'c Collaborators \<Rightarrow> ParsedPackage \<Rightarrow> 'c Manager \<Rightarrow> (error option \<times> 'c Manager) option" where
  "resolveAllDeps env p m =
     (if length (Dependencies p) = 0 then Some (None, m)
      else resolveAllDeps_loop env (Dependencies p) m)"

text \<open>
  \<^verbatim>\<open>Resolve\<close> returns the resolved dependency, the accumulator \<^verbatim>\<open>m.acc\<close> as it is
  at the return, and the error.
\<close>

definition Resolve ::
  "'c Collaborators \<Rightarrow> Dependency \<Rightarrow> 'c Manager \<Rightarrow>
     ((Dependency \<times> ParsedPackage list \<times> error option) \<times> 'c Manager) option" where
  "Resolve env d m =
     (let ud = zero_Dependency in
      case retrievePkg env d m of
        (Inl err, m1) \<Rightarrow> Some ((ud, m_acc m1, None), m1)
      | (Inr e, m1) \<Rightarrow>
          (let m2 = m1\<lparr>m_acc := m_acc m1 @ [e]\<rparr> in
           case resolveAllDeps env e m2 of
             None \<Rightarrow> None
           | Some (Some err, m3) \<Rightarrow> Some ((ud, m_acc m3, Some err), m3)
           | Some (None, m3) \<Rightarrow>
               Some ((ud\<lparr>Type := PkgType e, Package := Package d, Constraints := Version e\<rparr>,
                      m_acc m3, None), m3)))"

text \<open>
  \<^verbatim>\<open>Snapshot\<close>. The inner loop \<^verbatim>\<open>for k, v := range p.Validators() { view[k] = v }\<close>
  writes every entry of the package's map into \<open>view\<close>; the keys of a Go map are
  distinct, so whatever the iteration order the result is \<open>view ++ Validators p\<close>.
\<close>

record Snapshot =
  view :: "GroupVersionKind \<rightharpoonup> SchemaValidator"

definition merge_acc ::
  "(GroupVersionKind \<rightharpoonup> SchemaValidator) \<Rightarrow> ParsedPackage list \<Rightarrow>
     (GroupVersionKind \<rightharpoonup> SchemaValidator)" where
  "merge_acc vw ps = fold (\<lambda>p vw'. vw' ++ Validators p) ps vw"

fun Snapshot_loop ::
  "'c Collaborators \<Rightarrow> Dependency list \<Rightarrow> (GroupVersionKind \<rightharpoonup> SchemaValidator) \<Rightarrow>
     'c Manager \<Rightarrow> ((error + Snapshot) \<times> 'c Manager) option" where
  "Snapshot_loop env [] vw m = Some (Inr \<lparr>view = vw\<rparr>, m)"
| "Snapshot_loop env (d # ds) vw m =
     (case Resolve env d m of
        None \<Rightarrow> None
      | Some ((ud, ps, Some err), m1) \<Rightarrow> Some (Inl err, m1)
      | Some ((ud, ps, None), m1) \<Rightarrow> Snapshot_loop env ds (merge_acc vw ps) m1)"

definition Snapshot ::
  "'c Collaborators \<Rightarrow> Dependency list \<Rightarrow> 'c Manager \<Rightarrow>
     ((error + Snapshot) \<times> 'c Manager) option" where
  "Snapshot env deps m = Snapshot_loop env deps Map.empty m"

definition View :: "Snapshot \<Rightarrow> (GroupVersionKind \<rightharpoonup> SchemaValidator)" where
  "View s = view s"

section \<open>Contracts of the collaborators\<close>

text \<open>
  The contract of the cache: a \<^verbatim>\<open>Get\<close> after a successful \<^verbatim>\<open>Store\<close> returns the
  stored package, and a \<^verbatim>\<open>Store\<close> for one identity leaves the entries of all other
  identities as they were.
\<close>

definition cache_contract :: "'c Collaborators \<Rightarrow> bool" where
  "cache_contract env \<longleftrightarrow>
     (\<forall>c d p c'. Store env c d p = (None, c') \<longrightarrow>
        Get env c' d = Inr p \<and> (\<forall>d'. d' \<noteq> d \<longrightarrow> Get env c' d' = Get env c d'))"

text \<open>
  What the registry serves for an identity at the time of the call: the image that
  \<^verbatim>\<open>ResolveImage\<close> fetches, marshaled by \<^verbatim>\<open>FromImage\<close>.
\<close>

definition fetched :: "'c Collaborators \<Rightarrow> Dependency \<Rightarrow> error + ParsedPackage" where
  "fetched env d = (case ResolveImage env d of Inl err \<Rightarrow> Inl err
                    | Inr (t, i) \<Rightarrow> FromImage env (Package d) t i)"

text \<open>
  The registry is consistent when, for every identity it can serve, the digest it
  reports is the digest of the package marshaled from the image it serves.
\<close>

definition registry_consistent :: "'c Collaborators \<Rightarrow> bool" where
  "registry_consistent env \<longleftrightarrow>
     (\<forall>d p. fetched env d = Inr p \<longrightarrow> ResolveDigest env d = Inr (Digest p))"

text \<open>
  Modelled from the spec: the cache implementation (\<^verbatim>\<open>cache.Local\<close>) is not part of the
  sources. The spec describes it as a mapping from a finalized identity to the package
  stored for it: \<^verbatim>\<open>get\<close> fails with a distinguished not-found outcome when the
  identity is absent, and for \<^verbatim>\<open>store\<close> the last write for an identity wins.
\<close>

type_synonym LocalCache = "Dependency \<rightharpoonup> ParsedPackage"

definition local_Get :: "LocalCache \<Rightarrow> Dependency \<Rightarrow> error + ParsedPackage" where
  "local_Get c d = (case c d of None \<Rightarrow> Inl (NotExist ''cache'') | Some p \<Rightarrow> Inr p)"

definition local_Store :: "LocalCache \<Rightarrow> Dependency \<Rightarrow> ParsedPackage \<Rightarrow> error option \<times> LocalCache" where
  "local_Store c d p = (None, c(d \<mapsto> p))"

text \<open>\<^verbatim>\<open>New\<close> with a given cache: the accumulator starts empty.\<close>

definition New :: "'c \<Rightarrow> 'c Manager" where
  "New c = \<lparr>m_c = c, m_acc = [], m_calls = []\<rparr>"

section \<open>Big-step characterisation of the recursion\<close>

text \<open>
  \<open>run env ds m r\<close>: the loop of \<^verbatim>\<open>resolveAllDeps\<close> over \<open>ds\<close>, started in
  \<open>m\<close>, returns \<open>r\<close>. The relation is shown below to hold exactly when
  \<open>resolveAllDeps_loop env ds m = Some r\<close>; it gives the induction principle over
  the executions that return.
\<close>

inductive run ::
  "'c Collaborators \<Rightarrow> Dependency list \<Rightarrow> 'c Manager \<Rightarrow> error option \<times> 'c Manager \<Rightarrow> bool"
  for env :: "'c Collaborators" where
  run_Nil: "run env [] m (None, m)"
| run_fail: "retrievePkg env d m = (Inl err, m1) \<Longrightarrow> run env (d # ds) m (Some err, m1)"
| run_deep: "retrievePkg env d m = (Inr e, m1) \<Longrightarrow>
     run env (Dependencies e) (m1\<lparr>m_acc := m_acc m1 @ [e]\<rparr>) (Some err, m3) \<Longrightarrow>
     run env (d # ds) m (Some err, m3)"
| run_next: "retrievePkg env d m = (Inr e, m1) \<Longrightarrow>
     run env (Dependencies e) (m1\<lparr>m_acc := m_acc m1 @ [e]\<rparr>) (None, m3) \<Longrightarrow>
     run env ds m3 r \<Longrightarrow>
     run env (d # ds) m r"

section \<open>A concrete registry\<close>

text \<open>
  A registry that serves two packages, \<open>A\<close> (tag \<open>1.2.0\<close>) and \<open>B\<close> (tag
  \<open>2.3.0\<close>), and nothing else, together with the cache modelled above. The package
  contents \<open>pA\<close> and \<open>pB\<close> are parameters; the digest the registry reports for an
  identity is the digest of the package it serves.
\<close>

definition registry :: "ParsedPackage \<Rightarrow> ParsedPackage \<Rightarrow> LocalCache Collaborators" where
  "registry pA pB =
     \<lparr>Get = local_Get,
      Store = local_Store,
      ResolveTag = (\<lambda>d. if Package d = ''A'' then Inr ''1.2.0''
                         else if Package d = ''B'' then Inr ''2.3.0''
                         else Inl (Failure ''no such package'')),
      ResolveDigest = (\<lambda>d. if Package d = ''A'' then Inr (Digest pA)
                            else if Package d = ''B'' then Inr (Digest pB)
                            else Inl (Failure ''no such package'')),
      ResolveImage = (\<lambda>d. if Package d = ''A'' then Inr (Constraints d, ''imgA'')
                           else if Package d = ''B'' then Inr (Constraints d, ''imgB'')
                           else Inl (Failure ''no such package'')),
      FromImage = (\<lambda>n t i. if i = ''imgA'' then Inr pA
                            else if i = ''imgB'' then Inr pB
                            else Inl (Failure ''malformed package''))\<rparr>"

definition depA :: Dependency where
  "depA = \<lparr>Package = ''A'', Type = ''Configuration'', Constraints = ''^1.0''\<rparr>"

definition depB :: Dependency where
  "depB = \<lparr>Package = ''B'', Type = ''Provider'', Constraints = ''^2.0''\<rparr>"

definition depC :: Dependency where
  "depC = \<lparr>Package = ''C'', Type = ''Provider'', Constraints = ''^3.0''\<rparr>"

definition gvkT :: GroupVersionKind where
  "gvkT = \<lparr>Group = ''example.org'', Version_gvk = ''v1'', Kind = ''T''\<rparr>"

definition gvkU :: GroupVersionKind where
  "gvkU = \<lparr>Group = ''example.org'', Version_gvk = ''v1'', Kind = ''U''\<rparr>"

definition pkgA :: ParsedPackage where
  "pkgA = \<lparr>PkgType = ''Configuration'', Version = ''1.2.0'', Digest = ''d1'',
            Dependencies = [depB], Validators = [gvkT \<mapsto> 1, gvkU \<mapsto> 3]\<rparr>"

definition pkgB :: ParsedPackage where
  "pkgB = \<lparr>PkgType = ''Provider'', Version = ''2.3.0'', Digest = ''d2'',
            Dependencies = [], Validators = [gvkT \<mapsto> 2]\<rparr>"

text \<open>A package \<open>B\<close> that depends on \<open>A\<close> (a cycle), one that depends on the
  unknown package \<open>C\<close>, and an older content of \<open>A\<close>.\<close>

definition pkgB_cyc :: ParsedPackage where
  "pkgB_cyc = pkgB\<lparr>Dependencies := [depA]\<rparr>"

definition pkgB_c :: ParsedPackage where
  "pkgB_c = pkgB\<lparr>Dependencies := [depC]\<rparr>"

definition pkgA_old :: ParsedPackage where
  "pkgA_old = pkgA\<lparr>Digest := ''d0'', Validators := Map.empty\<rparr>"

definition finA :: Dependency where
  "finA = depA\<lparr>Constraints := ''1.2.0''\<rparr>"

definition finB :: Dependency where
  "finB = depB\<lparr>Constraints := ''2.3.0''\<rparr>"

section \<open>Vocabulary of the statements\<close>

text \<open>\<open>made_for d ev\<close>: the call \<open>ev\<close> is a cache or registry call other than
  \<^verbatim>\<open>ResolveTag\<close>, made for the identity \<open>d\<close> (the marshaler receives only the
  package reference of the identity).\<close>

fun made_for :: "Dependency \<Rightarrow> call \<Rightarrow> bool" where
  "made_for d (CallResolveTag x) = False"
| "made_for d (CallGet x) = (x = d)"
| "made_for d (CallResolveDigest x) = (x = d)"
| "made_for d (CallResolveImage x) = (x = d)"
| "made_for d (CallFromImage n t i) = (n = Package d)"
| "made_for d (CallStore x p) = (x = d)"

text \<open>The calls of the fetch path: fetching the image, marshaling it, storing the
  package.\<close>

fun is_fetch :: "call \<Rightarrow> bool" where
  "is_fetch (CallResolveImage x) = True"
| "is_fetch (CallFromImage n t i) = True"
| "is_fetch (CallStore x p) = True"
| "is_fetch (CallResolveTag x) = False"
| "is_fetch (CallGet x) = False"
| "is_fetch (CallResolveDigest x) = False"


text \<open>
  The validator of the last package of a list that declares the type identifier
  \<open>k\<close>, if any package does: a later package takes precedence over an earlier one.
\<close>

fun last_decl :: "ParsedPackage list \<Rightarrow> GroupVersionKind \<Rightarrow> SchemaValidator option" where
  "last_decl [] k = None"
| "last_decl (p # ps) k = (case last_decl ps k of Some v \<Rightarrow> Some v | None \<Rightarrow> Validators p k)"

section \<open>The dependency graph\<close>

text \<open>
  The package that an identity resolves to depends on the registry and on the cache.
  \<open>world env W I D\<close> says that, for the identities in \<open>D\<close> and as long as the cache
  satisfies \<open>I\<close>, a retrieval that succeeds returns the package \<open>W d\<close>, whatever the
  state of the Manager, that \<open>I\<close> is kept by every retrieval, and that the
  dependencies declared by these packages are in \<open>D\<close> again. The declared-dependency
  edges between the identities of \<open>D\<close> are \<open>dep_edges W D\<close>.
\<close>

definition world ::
  "'c Collaborators \<Rightarrow> (Dependency \<Rightarrow> ParsedPackage) \<Rightarrow> ('c \<Rightarrow> bool) \<Rightarrow> Dependency set \<Rightarrow> bool" where
  "world env W I D \<longleftrightarrow>
     (\<forall>d \<in> D. set (Dependencies (W d)) \<subseteq> D) \<and>
     (\<forall>m r m'. \<forall>d \<in> D. I (m_c m) \<longrightarrow> retrievePkg env d m = (r, m') \<longrightarrow>
        I (m_c m') \<and> (\<forall>e. r = Inr e \<longrightarrow> e = W d))"

definition no_retrieval_errors ::
  "'c Collaborators \<Rightarrow> ('c \<Rightarrow> bool) \<Rightarrow> Dependency set \<Rightarrow> bool" where
  "no_retrieval_errors env I D \<longleftrightarrow>
     (\<forall>m. \<forall>d \<in> D. I (m_c m) \<longrightarrow> (\<exists>e m'. retrievePkg env d m = (Inr e, m')))"

definition dep_edges ::
  "(Dependency \<Rightarrow> ParsedPackage) \<Rightarrow> Dependency set \<Rightarrow> (Dependency \<times> Dependency) set" where
  "dep_edges W D = {(d, d'). d \<in> D \<and> d' \<in> set (Dependencies (W d))}"

text \<open>
  Depth-first pre-order, as the spec describes the traversal: the package of an
  identity, then the traversal of its declared dependencies in their order, then the
  remaining identities. The relation has a derivation only when the traversal is
  finite.
\<close>

inductive dfs_preorder ::
  "(Dependency \<Rightarrow> ParsedPackage) \<Rightarrow> Dependency list \<Rightarrow> ParsedPackage list \<Rightarrow> bool"
  for W :: "Dependency \<Rightarrow> ParsedPackage" where
  dfs_Nil: "dfs_preorder W [] []"
| dfs_Cons: "dfs_preorder W (Dependencies (W d)) xs \<Longrightarrow> dfs_preorder W ds ys \<Longrightarrow>
     dfs_preorder W (d # ds) (W d # xs @ ys)"

text \<open>
  The world of the concrete registry: the packages it serves, and the caches whose
  entries agree with the registry whenever their digest does.
\<close>

definition served :: "ParsedPackage \<Rightarrow> ParsedPackage \<Rightarrow> Dependency \<Rightarrow> ParsedPackage" where
  "served pA pB d = (if Package d = ''A'' then pA else pB)"

definition cache_faithful :: "ParsedPackage \<Rightarrow> ParsedPackage \<Rightarrow> LocalCache \<Rightarrow> bool" where
  "cache_faithful pA pB c \<longleftrightarrow>
     (\<forall>k q. c k = Some q \<longrightarrow>
        (Package k = ''A'' \<and> Digest q = Digest pA \<longrightarrow> q = pA) \<and>
        (Package k = ''B'' \<and> Digest q = Digest pB \<longrightarrow> q = pB))"

text \<open>
  \<open>fresh_sub env c c'\<close>: every entry of the cache \<open>c\<close> whose digest is the
  registry's digest for its identity is also the entry of \<open>c'\<close> for that identity.
\<close>

definition fresh_sub :: "'c Collaborators \<Rightarrow> 'c \<Rightarrow> 'c \<Rightarrow> bool" where
  "fresh_sub env c c' \<longleftrightarrow>
     (\<forall>k q. Get env c k = Inr q \<and> ResolveDigest env k = Inr (Digest q) \<longrightarrow> Get env c' k = Inr q)"

text \<open>
  \<open>checked env evs k p\<close>: among the calls \<open>evs\<close> the cache has been read for the
  identity \<open>k\<close>, the digest of \<open>p\<close> is the digest the registry reports for \<open>k\<close>,
  and \<open>p\<close> has been verified by a \<^verbatim>\<open>ResolveDigest\<close> call for \<open>k\<close> or stored for
  \<open>k\<close> after a fetch.
\<close>

definition checked :: "'c Collaborators \<Rightarrow> call list \<Rightarrow> Dependency \<Rightarrow> ParsedPackage \<Rightarrow> bool" where
  "checked env evs k p \<longleftrightarrow>
     CallGet k \<in> set evs \<and> ResolveDigest env k = Inr (Digest p) \<and>
     (CallResolveDigest k \<in> set evs \<or> CallStore k p \<in> set evs)"

text \<open>
  The Manager as a first \<^verbatim>\<open>Resolve\<close> of \<open>A\<close> leaves it while the registry still
  serves the older content of \<open>A\<close>.
\<close>

definition stale_Manager :: "LocalCache Manager" where
  "stale_Manager =
     \<lparr>m_c = [finA \<mapsto> pkgA_old, finB \<mapsto> pkgB], m_acc = [pkgA_old, pkgB],
      m_calls = [CallResolveTag depA, CallGet finA, CallResolveImage finA,
                 CallFromImage ''A'' ''1.2.0'' ''imgA'', CallStore finA pkgA_old,
                 CallResolveTag depB, CallGet finB, CallResolveImage finB,
                 CallFromImage ''B'' ''2.3.0'' ''imgB'', CallStore finB pkgB]\<rparr>"

section \<open>Basic facts\<close>

lemma IsNotExist_NotExist: "IsNotExist e \<longleftrightarrow> (\<exists>msg. e = NotExist msg)"
  by (cases e) simp_all

lemma loop_Nil: "resolveAllDeps_loop env [] m = Some (None, m)"
  by (subst resolveAllDeps_loop.simps) simp

lemma resolveAllDeps_loop_eq:
  "resolveAllDeps env p m = resolveAllDeps_loop env (Dependencies p) m"
  by (simp add: resolveAllDeps_def loop_Nil)

lemma loop_Cons:
  "resolveAllDeps_loop env (d # ds) m =
     (case retrievePkg env d m of
        (Inl err, m1) \<Rightarrow> Some (Some err, m1)
      | (Inr e, m1) \<Rightarrow>
          Option.bind (resolveAllDeps env e (m1\<lparr>m_acc := m_acc m1 @ [e]\<rparr>))
            (\<lambda>r. case r of
               (Some err, m3) \<Rightarrow> Some (Some err, m3)
             | (None, m3) \<Rightarrow> resolveAllDeps_loop env ds m3))"
  by (subst resolveAllDeps_loop.simps)
     (simp add: resolveAllDeps_def Let_def split: prod.split sum.split)

lemma run_imp_loop: "run env ds m r \<Longrightarrow> resolveAllDeps_loop env ds m = Some r"
  by (induction rule: run.induct)
     (simp_all add: loop_Nil loop_Cons resolveAllDeps_loop_eq)

lemma loop_imp_run:
  assumes "resolveAllDeps_loop env ds m = Some r"
  shows "run env ds m r"
  using assms
proof (induct rule: resolveAllDeps_loop.raw_induct[rotated 1, consumes 1])
  case (1 f env ds m r)
  show ?case
  proof (cases ds)
    case Nil
    with 1(2) show ?thesis by (auto intro: run_Nil)
  next
    case (Cons d ds')
    obtain x m1 where rp: "retrievePkg env d m = (x, m1)" by (cases "retrievePkg env d m")
    show ?thesis
    proof (cases x)
      case (Inl err)
      with 1(2) Cons rp show ?thesis by (auto intro: run_fail)
    next
      case (Inr e)
      let ?m2 = "m1\<lparr>m_acc := m_acc m1 @ [e]\<rparr>"
      from 1(2) Cons rp Inr obtain r1 m3 where
        inner: "(if length (Dependencies e) = 0 then Some (None, ?m2)
                 else f env (Dependencies e) ?m2) = Some (r1, m3)"
        and rest: "(case r1 of Some err \<Rightarrow> Some (Some err, m3) | None \<Rightarrow> f env ds' m3) = Some r"
        by (auto simp: Let_def Option.bind_eq_Some_conv)
      have run1: "run env (Dependencies e) ?m2 (r1, m3)"
      proof (cases "Dependencies e")
        case Nil
        with inner show ?thesis by (auto intro: run_Nil)
      next
        case (Cons a as)
        with inner have "f env (Dependencies e) ?m2 = Some (r1, m3)" by simp
        then show ?thesis by (rule 1(1))
      qed
      show ?thesis
      proof (cases r1)
        case None
        with rest have "f env ds' m3 = Some r" by simp
        then have "run env ds' m3 r" by (rule 1(1))
        with run1 None rp Inr Cons show ?thesis by (auto intro: run_next)
      next
        case (Some err)
        with rest have "r = (Some err, m3)" by simp
        with run1 Some rp Inr Cons show ?thesis by (auto intro: run_deep)
      qed
    qed
  qed
qed

lemma loop_eq_Some_iff: "resolveAllDeps_loop env ds m = Some r \<longleftrightarrow> run env ds m r"
  using run_imp_loop loop_imp_run by blast

lemmas model_defs = retrievePkg_def finalizeDepVersion_def addPkg_def logcall_def Let_def

lemmas world_defs = registry_def local_Get_def local_Store_def depA_def depB_def depC_def
  pkgA_def pkgB_def pkgB_cyc_def pkgB_c_def pkgA_old_def finA_def finB_def New_def

lemma retrievePkg_acc: "retrievePkg env d m = (r, m1) \<Longrightarrow> m_acc m1 = m_acc m"
  by (auto simp: model_defs split: sum.splits prod.splits if_splits option.splits)

lemma addPkg_Inr:
  "addPkg env d m = (Inr p, m') \<longleftrightarrow>
     (\<exists>t i c'. ResolveImage env d = Inr (t, i) \<and> FromImage env (Package d) t i = Inr p \<and>
        Store env (m_c m) d p = (None, c') \<and>
        m' = \<lparr>m_c = c', m_acc = m_acc m,
              m_calls = m_calls m @ [CallResolveImage d, CallFromImage (Package d) t i, CallStore d p]\<rparr>)"
  by (cases m) (auto simp: addPkg_def logcall_def Let_def split: sum.splits prod.splits option.splits)

lemma addPkg_Inl:
  "addPkg env d m = (Inl err, m') \<Longrightarrow>
     fetched env d = Inl err \<or>
     (\<exists>p c'. fetched env d = Inr p \<and> Store env (m_c m) d p = (Some err, c'))"
  by (auto simp: addPkg_def logcall_def Let_def fetched_def
           split: sum.splits prod.splits option.splits)

lemma addPkg_success:
  "ResolveImage env d = Inr (t, i) \<Longrightarrow> FromImage env (Package d) t i = Inr p \<Longrightarrow>
   Store env (m_c m) d p = (None, c') \<Longrightarrow>
   addPkg env d m =
     (Inr p, \<lparr>m_c = c', m_acc = m_acc m,
              m_calls = m_calls m @ [CallResolveImage d, CallFromImage (Package d) t i, CallStore d p]\<rparr>)"
  by (simp add: addPkg_Inr)

lemma retrievePkg_tag_fail:
  "ResolveTag env d = Inl err \<Longrightarrow> retrievePkg env d m = (Inl err, logcall (CallResolveTag d) m)"
  by (simp add: model_defs)

lemma retrievePkg_miss:
  "ResolveTag env d = Inr v \<Longrightarrow> Get env (m_c m) (d\<lparr>Constraints := v\<rparr>) = Inl e \<Longrightarrow> IsNotExist e \<Longrightarrow>
   retrievePkg env d m =
     addPkg env (d\<lparr>Constraints := v\<rparr>)
       (logcall (CallGet (d\<lparr>Constraints := v\<rparr>)) (logcall (CallResolveTag d) m))"
  by (simp add: retrievePkg_def finalizeDepVersion_def Let_def logcall_def)

lemma retrievePkg_hit_fresh:
  "ResolveTag env d = Inr v \<Longrightarrow> Get env (m_c m) (d\<lparr>Constraints := v\<rparr>) = Inr q \<Longrightarrow>
   ResolveDigest env (d\<lparr>Constraints := v\<rparr>) = Inr (Digest q) \<Longrightarrow>
   retrievePkg env d m =
     (Inr q, m\<lparr>m_calls := m_calls m @ [CallResolveTag d, CallGet (d\<lparr>Constraints := v\<rparr>),
                                          CallResolveDigest (d\<lparr>Constraints := v\<rparr>)]\<rparr>)"
  by (simp add: retrievePkg_def finalizeDepVersion_def Let_def logcall_def)

lemma retrievePkg_hit_stale:
  "ResolveTag env d = Inr v \<Longrightarrow> Get env (m_c m) (d\<lparr>Constraints := v\<rparr>) = Inr q \<Longrightarrow>
   ResolveDigest env (d\<lparr>Constraints := v\<rparr>) = Inr g \<Longrightarrow> g \<noteq> Digest q \<Longrightarrow>
   retrievePkg env d m =
     addPkg env (d\<lparr>Constraints := v\<rparr>)
       (logcall (CallResolveDigest (d\<lparr>Constraints := v\<rparr>))
         (logcall (CallGet (d\<lparr>Constraints := v\<rparr>)) (logcall (CallResolveTag d) m)))"
  by (auto simp add: retrievePkg_def finalizeDepVersion_def Let_def logcall_def)

section \<open>Error handling of the root and of transitive dependencies\<close>

text \<open>
  Claim C1. When \<^verbatim>\<open>retrievePkg\<close> fails for the root dependency, \<^verbatim>\<open>Resolve\<close>
  returns the zero dependency, the accumulator as it was (empty on a new Manager) and
  no error. The same failure for a dependency met in the loop of \<^verbatim>\<open>resolveAllDeps\<close>
  is returned by that loop as the error; an error returned by a nested
  \<^verbatim>\<open>resolveAllDeps\<close> is returned by the enclosing loop, at any depth, and by
  \<^verbatim>\<open>Resolve\<close> as its error. A nested call that returns no error lets the loop go
  on with the next dependency, so the failure is found at any position.
\<close>

theorem Resolve_swallows_root_failure_only:
  "(retrievePkg env d m = (Inl err, m1) \<longrightarrow>
      Resolve env d m = Some ((zero_Dependency, m_acc m, None), m1) \<and>
      resolveAllDeps_loop env (d # ds) m = Some (Some err, m1) \<and>
      (Dependencies p = d # ds \<longrightarrow> resolveAllDeps env p m = Some (Some err, m1))) \<and>
   (retrievePkg env d m = (Inr e, m1) \<longrightarrow>
      resolveAllDeps env e (m1\<lparr>m_acc := m_acc m1 @ [e]\<rparr>) = Some (Some err, m3) \<longrightarrow>
        resolveAllDeps_loop env (d # ds) m = Some (Some err, m3) \<and>
        Resolve env d m = Some ((zero_Dependency, m_acc m3, Some err), m3)) \<and>
   (retrievePkg env d m = (Inr e, m1) \<longrightarrow>
      resolveAllDeps env e (m1\<lparr>m_acc := m_acc m1 @ [e]\<rparr>) = Some (None, m3) \<longrightarrow>
        resolveAllDeps_loop env (d # ds) m = resolveAllDeps_loop env ds m3)"
  by (auto simp: Resolve_def loop_Cons resolveAllDeps_loop_eq dest: retrievePkg_acc)

theorem Resolve_swallows_root_failure_only_witness:
  "retrievePkg (registry pkgA pkgB_c) depC (New Map.empty) =
     (Inl (Failure ''no such package''), logcall (CallResolveTag depC) (New Map.empty)) \<and>
   Resolve (registry pkgA pkgB_c) depC (New Map.empty) =
     Some ((zero_Dependency, [], None), logcall (CallResolveTag depC) (New Map.empty)) \<and>
   fst (retrievePkg (registry pkgA pkgB_c) depA (New Map.empty)) = Inr pkgA \<and>
   map_option fst (Resolve (registry pkgA pkgB_c) depA (New Map.empty)) =
     Some (zero_Dependency, [pkgA, pkgB_c], Some (Failure ''no such package'')) \<and>
   fst (retrievePkg (registry pkgA pkgB) depB (New Map.empty)) = Inr pkgB \<and>
   map_option fst (resolveAllDeps_loop (registry pkgA pkgB) [depB, depC] (New Map.empty)) =
     Some (Some (Failure ''no such package''))"
proof -
  let ?R = "registry pkgA pkgB_c"
  let ?S = "registry pkgA pkgB"
  let ?m0 = "New Map.empty :: LocalCache Manager"
  let ?err = "Failure ''no such package''"
  let ?mC = "logcall (CallResolveTag depC) ?m0"
  let ?mA = "\<lparr>m_c = [finA \<mapsto> pkgA], m_acc = [],
              m_calls = [CallResolveTag depA, CallGet finA, CallResolveImage finA,
                         CallFromImage ''A'' ''1.2.0'' ''imgA'', CallStore finA pkgA]\<rparr>"
  let ?m3 = "\<lparr>m_c = [finA \<mapsto> pkgA, finB \<mapsto> pkgB_c], m_acc = [pkgA, pkgB_c],
              m_calls = [CallResolveTag depA, CallGet finA, CallResolveImage finA,
                         CallFromImage ''A'' ''1.2.0'' ''imgA'', CallStore finA pkgA,
                         CallResolveTag depB, CallGet finB, CallResolveImage finB,
                         CallFromImage ''B'' ''2.3.0'' ''imgB'', CallStore finB pkgB_c,
                         CallResolveTag depC]\<rparr>"
  let ?mB = "\<lparr>m_c = [finB \<mapsto> pkgB], m_acc = [],
              m_calls = [CallResolveTag depB, CallGet finB, CallResolveImage finB,
                         CallFromImage ''B'' ''2.3.0'' ''imgB'', CallStore finB pkgB]\<rparr>"
  let ?mB2 = "?mB\<lparr>m_acc := m_acc ?mB @ [pkgB]\<rparr>"
  have root: "retrievePkg ?R depC ?m0 = (Inl ?err, ?mC)"
    by (simp add: model_defs world_defs)
  have a: "retrievePkg ?R depA ?m0 = (Inr pkgA, ?mA)"
    by (simp add: model_defs world_defs)
  have deep: "resolveAllDeps ?R pkgA (?mA\<lparr>m_acc := m_acc ?mA @ [pkgA]\<rparr>) = Some (Some ?err, ?m3)"
    by (simp add: resolveAllDeps_loop_eq loop_Cons loop_Nil model_defs world_defs)
  have b: "retrievePkg ?S depB ?m0 = (Inr pkgB, ?mB)"
    by (simp add: model_defs world_defs)
  have leaf: "resolveAllDeps ?S pkgB ?mB2 = Some (None, ?mB2)"
    by (simp add: resolveAllDeps_def pkgB_def)
  have c: "retrievePkg ?S depC ?mB2 = (Inl ?err, logcall (CallResolveTag depC) ?mB2)"
    by (simp add: model_defs world_defs)
  have r1: "Resolve ?R depC ?m0 = Some ((zero_Dependency, m_acc ?m0, None), ?mC)"
    using Resolve_swallows_root_failure_only [of ?R depC ?m0 ?err ?mC] root by blast
  have r2: "Resolve ?R depA ?m0 = Some ((zero_Dependency, m_acc ?m3, Some ?err), ?m3)"
    using Resolve_swallows_root_failure_only [of ?R depA ?m0 ?err ?mA _ _ pkgA ?m3] a deep by blast
  have r3: "resolveAllDeps_loop ?S [depB, depC] ?m0 = resolveAllDeps_loop ?S [depC] ?mB2"
    using Resolve_swallows_root_failure_only [of ?S depB ?m0 _ ?mB "[depC]" _ pkgB ?mB2] b leaf
    by blast
  have r4: "resolveAllDeps_loop ?S [depC] ?mB2 = Some (Some ?err, logcall (CallResolveTag depC) ?mB2)"
    using Resolve_swallows_root_failure_only [of ?S depC ?mB2 ?err "logcall (CallResolveTag depC) ?mB2" "[]"] c
    by blast
  from root a b r1 r2 r3 r4 show ?thesis by (simp add: New_def)
qed

section \<open>Cache misses\<close>

text \<open>
  Claim C5. When the tag is resolved and \<^verbatim>\<open>Get\<close> reports an error for which
  \<^verbatim>\<open>os.IsNotExist\<close> holds, \<^verbatim>\<open>retrievePkg\<close> is exactly the fetch-and-store action
  \<^verbatim>\<open>addPkg\<close> for the finalized identity: when the fetch, the marshaling and the store
  succeed, the package is returned with no error, after the calls \<^verbatim>\<open>ResolveImage\<close>,
  \<^verbatim>\<open>FromImage\<close> and \<^verbatim>\<open>Store\<close>; and an error that \<^verbatim>\<open>retrievePkg\<close> returns is the
  error of the fetch, of the marshaling or of the store, never the error of \<^verbatim>\<open>Get\<close>.
\<close>

theorem cache_miss_absorbed:
  assumes tag: "ResolveTag env d = Inr v"
    and miss: "Get env (m_c m) (d\<lparr>Constraints := v\<rparr>) = Inl e" "IsNotExist e"
  shows "retrievePkg env d m =
           addPkg env (d\<lparr>Constraints := v\<rparr>)
             (logcall (CallGet (d\<lparr>Constraints := v\<rparr>)) (logcall (CallResolveTag d) m)) \<and>
         (\<forall>t i p c'.
            ResolveImage env (d\<lparr>Constraints := v\<rparr>) = Inr (t, i) \<longrightarrow>
            FromImage env (Package d) t i = Inr p \<longrightarrow>
            Store env (m_c m) (d\<lparr>Constraints := v\<rparr>) p = (None, c') \<longrightarrow>
            retrievePkg env d m =
              (Inr p, \<lparr>m_c = c', m_acc = m_acc m,
                       m_calls = m_calls m @ [CallResolveTag d, CallGet (d\<lparr>Constraints := v\<rparr>),
                         CallResolveImage (d\<lparr>Constraints := v\<rparr>), CallFromImage (Package d) t i,
                         CallStore (d\<lparr>Constraints := v\<rparr>) p]\<rparr>)) \<and>
         (\<forall>err m'. retrievePkg env d m = (Inl err, m') \<longrightarrow>
            fetched env (d\<lparr>Constraints := v\<rparr>) = Inl err \<or>
            (\<exists>p c'. fetched env (d\<lparr>Constraints := v\<rparr>) = Inr p \<and>
               Store env (m_c m) (d\<lparr>Constraints := v\<rparr>) p = (Some err, c')))"
proof -
  let ?d = "d\<lparr>Constraints := v\<rparr>"
  let ?m = "logcall (CallGet ?d) (logcall (CallResolveTag d) m)"
  have eq: "retrievePkg env d m = addPkg env ?d ?m"
    using tag miss by (rule retrievePkg_miss)
  have c: "m_c ?m = m_c m" by (simp add: logcall_def)
  have ok: "retrievePkg env d m =
              (Inr p, \<lparr>m_c = c', m_acc = m_acc m,
                       m_calls = m_calls m @ [CallResolveTag d, CallGet ?d,
                         CallResolveImage ?d, CallFromImage (Package d) t i, CallStore ?d p]\<rparr>)"
    if "ResolveImage env ?d = Inr (t, i)" "FromImage env (Package d) t i = Inr p"
       "Store env (m_c m) ?d p = (None, c')" for t i p c'
    using that addPkg_success [of env ?d t i p ?m c'] by (simp add: eq logcall_def)
  have bad: "fetched env ?d = Inl err \<or>
             (\<exists>p c'. fetched env ?d = Inr p \<and> Store env (m_c m) ?d p = (Some err, c'))"
    if "retrievePkg env d m = (Inl err, m')" for err m'
    using that addPkg_Inl [of env ?d ?m err m'] by (simp add: eq c)
  from eq ok bad show ?thesis by blast
qed

theorem cache_miss_absorbed_witness:
  "ResolveTag (registry pkgA pkgB) depA = Inr ''1.2.0'' \<and>
   Get (registry pkgA pkgB) (m_c (New Map.empty)) (depA\<lparr>Constraints := ''1.2.0''\<rparr>) = Inl (NotExist ''cache'') \<and>
   IsNotExist (NotExist ''cache'') \<and>
   retrievePkg (registry pkgA pkgB) depA (New Map.empty) =
     (Inr pkgA, \<lparr>m_c = [finA \<mapsto> pkgA], m_acc = [],
                 m_calls = [CallResolveTag depA, CallGet finA, CallResolveImage finA,
                            CallFromImage ''A'' ''1.2.0'' ''imgA'', CallStore finA pkgA]\<rparr>) \<and>
   fst (retrievePkg ((registry pkgA pkgB)\<lparr>ResolveImage := \<lambda>d. Inl (Failure ''unreachable'')\<rparr>)
          depA (New Map.empty)) = Inl (Failure ''unreachable'') \<and>
   fetched ((registry pkgA pkgB)\<lparr>ResolveImage := \<lambda>d. Inl (Failure ''unreachable'')\<rparr>) finA =
     Inl (Failure ''unreachable'')"
proof -
  let ?R = "registry pkgA pkgB"
  let ?F = "?R\<lparr>ResolveImage := \<lambda>d. Inl (Failure ''unreachable'')\<rparr>"
  let ?m0 = "New Map.empty :: LocalCache Manager"
  have fin: "depA\<lparr>Constraints := ''1.2.0''\<rparr> = finA" by (simp add: finA_def)
  have tag: "ResolveTag ?R depA = Inr ''1.2.0''"
    by (simp add: world_defs)
  have miss: "Get ?R (m_c ?m0) (depA\<lparr>Constraints := ''1.2.0''\<rparr>) = Inl (NotExist ''cache'')"
    by (simp add: world_defs)
  have tagF: "ResolveTag ?F depA = Inr ''1.2.0''"
    by (simp add: world_defs)
  have missF: "Get ?F (m_c ?m0) (depA\<lparr>Constraints := ''1.2.0''\<rparr>) = Inl (NotExist ''cache'')"
    by (simp add: world_defs)
  have nf: "IsNotExist (NotExist ''cache'')" by simp
  have ok: "retrievePkg ?R depA ?m0 =
     (Inr pkgA, \<lparr>m_c = [finA \<mapsto> pkgA], m_acc = [],
                 m_calls = [CallResolveTag depA, CallGet finA, CallResolveImage finA,
                            CallFromImage ''A'' ''1.2.0'' ''imgA'', CallStore finA pkgA]\<rparr>)"
    using cache_miss_absorbed [OF tag miss nf] by (simp add: model_defs world_defs)
  have bad: "retrievePkg ?F depA ?m0 =
     (Inl (Failure ''unreachable''),
      \<lparr>m_c = Map.empty, m_acc = [], m_calls = [CallResolveTag depA, CallGet finA, CallResolveImage finA]\<rparr>)"
    by (simp add: model_defs world_defs)
  have sto: "Store ?F (m_c ?m0) finA p \<noteq> (Some (Failure ''unreachable''), c')" for p c'
    by (simp add: world_defs)
  have f: "fetched ?F finA = Inl (Failure ''unreachable'')"
    using cache_miss_absorbed [OF tagF missF nf, THEN conjunct2, THEN conjunct2, rule_format, OF bad]
      sto by (simp add: fin)
  from tag miss nf ok bad f show ?thesis by simp
qed

section \<open>The accumulator only grows\<close>

lemma run_acc_prefix: "run env ds m r \<Longrightarrow> prefix (m_acc m) (m_acc (snd r))"
proof (induction rule: run.induct)
  case (run_Nil m)
  then show ?case by simp
next
  case (run_fail d m err m1 ds)
  then show ?case by (simp add: retrievePkg_acc)
next
  case (run_deep d m e m1 err m3 ds)
  then show ?case by (auto dest!: retrievePkg_acc append_prefixD)
next
  case (run_next d m e m1 m3 ds r)
  then have "prefix (m_acc m) (m_acc m3)" by (auto dest!: retrievePkg_acc append_prefixD)
  from this run_next.IH(2) show ?case by (rule prefix_order.trans)
qed

lemma Resolve_acc:
  assumes "Resolve env d m = Some ((ud, ps, err), m')"
  shows "ps = m_acc m'" and "prefix (m_acc m) ps"
    and "retrievePkg env d m = (Inr e, m1) \<Longrightarrow> prefix (m_acc m @ [e]) ps"
proof -
  obtain x m1' where rp: "retrievePkg env d m = (x, m1')" by (cases "retrievePkg env d m")
  have acc1: "m_acc m1' = m_acc m" using rp by (rule retrievePkg_acc)
  show "ps = m_acc m'"
    using assms rp by (auto simp: Resolve_def Let_def split: sum.splits option.splits prod.splits)
  have *: "prefix (m_acc m) ps \<and> (\<forall>e. x = Inr e \<longrightarrow> prefix (m_acc m @ [e]) ps)"
  proof (cases x)
    case (Inl a)
    with assms rp acc1 show ?thesis by (auto simp: Resolve_def Let_def)
  next
    case (Inr e')
    let ?m2 = "m1'\<lparr>m_acc := m_acc m1' @ [e']\<rparr>"
    from assms rp Inr obtain r3 where r3: "resolveAllDeps env e' ?m2 = Some (r3, m')" and "ps = m_acc m'"
      by (auto simp: Resolve_def Let_def split: option.splits)
    then have "run env (Dependencies e') ?m2 (r3, m')"
      by (simp add: resolveAllDeps_loop_eq loop_eq_Some_iff)
    from run_acc_prefix [OF this] have "prefix (m_acc m @ [e']) ps"
      using acc1 \<open>ps = m_acc m'\<close> by simp
    then show ?thesis using Inr by (auto dest: append_prefixD)
  qed
  then show "prefix (m_acc m) ps" by simp
  show "prefix (m_acc m @ [e]) ps" if "retrievePkg env d m = (Inr e, m1)"
    using * that rp by simp
qed

lemma Resolve_leaf:
  assumes "retrievePkg env d m = (Inr p, m1)" and "Dependencies p = []"
  shows "Resolve env d m =
           Some ((\<lparr>Package = Package d, Type = PkgType p, Constraints = Version p\<rparr>,
                  m_acc m @ [p], None), m1\<lparr>m_acc := m_acc m @ [p]\<rparr>)"
  using assms retrievePkg_acc [OF assms(1)]
  by (simp add: Resolve_def resolveAllDeps_def zero_Dependency_def)

lemma cache_contract_registry: "cache_contract (registry pA pB)"
  by (simp add: cache_contract_def registry_def local_Get_def local_Store_def)

lemma registry_consistent_registry: "registry_consistent (registry pA pB)"
  by (auto simp: registry_consistent_def fetched_def registry_def split: if_splits)

section \<open>Cache hits: fresh and stale entries\<close>

text \<open>
  Claim C6. The tag is resolved, the cache holds \<open>q\<close> for the finalized identity
  and the registry reports the digest \<open>g\<close>. When \<open>g\<close> is the digest of \<open>q\<close>,
  \<^verbatim>\<open>retrievePkg\<close> returns \<open>q\<close>; the cache is unchanged and the only calls are
  \<^verbatim>\<open>ResolveTag\<close>, \<^verbatim>\<open>Get\<close> and \<^verbatim>\<open>ResolveDigest\<close> (no fetch, no marshaling, no
  store). When \<open>g\<close> differs, and the fetch, the marshaling and the store succeed,
  \<^verbatim>\<open>retrievePkg\<close> fetches, marshals and stores: it returns the new package \<open>p\<close>,
  and the cache is the one \<^verbatim>\<open>Store\<close> produced (under the contract of the cache it now
  holds \<open>p\<close> for the identity). In both cases, when the package declares no
  dependencies \<^verbatim>\<open>Resolve\<close> returns the old accumulator followed by the package, with
  exactly these calls made; and whenever \<^verbatim>\<open>Resolve\<close> returns, the accumulator it
  returns starts with the old accumulator followed by the package.
\<close>

theorem cache_hit_fresh_or_stale:
  assumes tag: "ResolveTag env d = Inr v"
    and hit: "Get env (m_c m) (d\<lparr>Constraints := v\<rparr>) = Inr q"
    and dg: "ResolveDigest env (d\<lparr>Constraints := v\<rparr>) = Inr g"
  shows "(g = Digest q \<longrightarrow>
            retrievePkg env d m =
              (Inr q, m\<lparr>m_calls := m_calls m @ [CallResolveTag d, CallGet (d\<lparr>Constraints := v\<rparr>),
                          CallResolveDigest (d\<lparr>Constraints := v\<rparr>)]\<rparr>) \<and>
            (Dependencies q = [] \<longrightarrow>
               Resolve env d m =
                 Some ((\<lparr>Package = Package d, Type = PkgType q, Constraints = Version q\<rparr>,
                        m_acc m @ [q], None),
                       m\<lparr>m_acc := m_acc m @ [q],
                         m_calls := m_calls m @ [CallResolveTag d, CallGet (d\<lparr>Constraints := v\<rparr>),
                           CallResolveDigest (d\<lparr>Constraints := v\<rparr>)]\<rparr>)) \<and>
            (\<forall>r m'. Resolve env d m = Some (r, m') \<longrightarrow> prefix (m_acc m @ [q]) (fst (snd r)))) \<and>
         (g \<noteq> Digest q \<longrightarrow>
            (\<forall>t i p c'.
               ResolveImage env (d\<lparr>Constraints := v\<rparr>) = Inr (t, i) \<longrightarrow>
               FromImage env (Package d) t i = Inr p \<longrightarrow>
               Store env (m_c m) (d\<lparr>Constraints := v\<rparr>) p = (None, c') \<longrightarrow>
                 retrievePkg env d m =
                   (Inr p, \<lparr>m_c = c', m_acc = m_acc m,
                      m_calls = m_calls m @ [CallResolveTag d, CallGet (d\<lparr>Constraints := v\<rparr>),
                        CallResolveDigest (d\<lparr>Constraints := v\<rparr>),
                        CallResolveImage (d\<lparr>Constraints := v\<rparr>), CallFromImage (Package d) t i,
                        CallStore (d\<lparr>Constraints := v\<rparr>) p]\<rparr>) \<and>
                 (cache_contract env \<longrightarrow> Get env c' (d\<lparr>Constraints := v\<rparr>) = Inr p) \<and>
                 (Dependencies p = [] \<longrightarrow>
                    Resolve env d m =
                      Some ((\<lparr>Package = Package d, Type = PkgType p, Constraints = Version p\<rparr>,
                             m_acc m @ [p], None),
                            \<lparr>m_c = c', m_acc = m_acc m @ [p],
                             m_calls = m_calls m @ [CallResolveTag d, CallGet (d\<lparr>Constraints := v\<rparr>),
                               CallResolveDigest (d\<lparr>Constraints := v\<rparr>),
                               CallResolveImage (d\<lparr>Constraints := v\<rparr>), CallFromImage (Package d) t i,
                               CallStore (d\<lparr>Constraints := v\<rparr>) p]\<rparr>)) \<and>
                 (\<forall>r m'. Resolve env d m = Some (r, m') \<longrightarrow> prefix (m_acc m @ [p]) (fst (snd r)))))"
proof (intro conjI impI allI)
  let ?d = "d\<lparr>Constraints := v\<rparr>"
  {
    assume eq: "g = Digest q"
    show fresh: "retrievePkg env d m =
       (Inr q, m\<lparr>m_calls := m_calls m @ [CallResolveTag d, CallGet ?d, CallResolveDigest ?d]\<rparr>)"
      using tag hit dg eq by (simp add: retrievePkg_hit_fresh)
    show "Resolve env d m =
        Some ((\<lparr>Package = Package d, Type = PkgType q, Constraints = Version q\<rparr>,
               m_acc m @ [q], None),
              m\<lparr>m_acc := m_acc m @ [q],
                m_calls := m_calls m @ [CallResolveTag d, CallGet ?d, CallResolveDigest ?d]\<rparr>)"
      if "Dependencies q = []"
      using Resolve_leaf [OF fresh that] by simp
    fix r m' assume "Resolve env d m = Some (r, m')"
    then show "prefix (m_acc m @ [q]) (fst (snd r))"
      using Resolve_acc(3) [of env d m "fst r" "fst (snd r)" "snd (snd r)" m' q, OF _ fresh] by simp
  }
  {
    fix t i p c'
    assume ne: "g \<noteq> Digest q"
      and img: "ResolveImage env ?d = Inr (t, i)"
      and mar: "FromImage env (Package d) t i = Inr p"
      and sto: "Store env (m_c m) ?d p = (None, c')"
    let ?m = "logcall (CallResolveDigest ?d) (logcall (CallGet ?d) (logcall (CallResolveTag d) m))"
    have "retrievePkg env d m = addPkg env ?d ?m"
      using tag hit dg ne by (rule retrievePkg_hit_stale)
    then show stale: "retrievePkg env d m =
       (Inr p, \<lparr>m_c = c', m_acc = m_acc m,
                m_calls = m_calls m @ [CallResolveTag d, CallGet ?d, CallResolveDigest ?d,
                  CallResolveImage ?d, CallFromImage (Package d) t i, CallStore ?d p]\<rparr>)"
      using addPkg_success [of env ?d t i p ?m c'] img mar sto by (simp add: logcall_def)
    show "Get env c' ?d = Inr p" if "cache_contract env"
      using that sto unfolding cache_contract_def by blast
    show "Resolve env d m =
        Some ((\<lparr>Package = Package d, Type = PkgType p, Constraints = Version p\<rparr>,
               m_acc m @ [p], None),
              \<lparr>m_c = c', m_acc = m_acc m @ [p],
               m_calls = m_calls m @ [CallResolveTag d, CallGet ?d, CallResolveDigest ?d,
                 CallResolveImage ?d, CallFromImage (Package d) t i, CallStore ?d p]\<rparr>)"
      if "Dependencies p = []"
      using Resolve_leaf [OF stale that] by simp
    fix r m' assume "Resolve env d m = Some (r, m')"
    then show "prefix (m_acc m @ [p]) (fst (snd r))"
      using Resolve_acc(3) [of env d m "fst r" "fst (snd r)" "snd (snd r)" m' p, OF _ stale] by simp
  }
qed

theorem cache_hit_fresh_or_stale_witness:
  "ResolveTag (registry pkgA pkgB) depA = Inr ''1.2.0'' \<and>
   Get (registry pkgA pkgB) [finA \<mapsto> pkgA] finA = Inr pkgA \<and>
   ResolveDigest (registry pkgA pkgB) finA = Inr (Digest pkgA) \<and>
   retrievePkg (registry pkgA pkgB) depA \<lparr>m_c = [finA \<mapsto> pkgA], m_acc = [], m_calls = []\<rparr> =
     (Inr pkgA, \<lparr>m_c = [finA \<mapsto> pkgA], m_acc = [],
                 m_calls = [CallResolveTag depA, CallGet finA, CallResolveDigest finA]\<rparr>) \<and>
   Get (registry pkgA pkgB) [finA \<mapsto> pkgA_old] finA = Inr pkgA_old \<and>
   Digest pkgA \<noteq> Digest pkgA_old \<and>
   ResolveImage (registry pkgA pkgB) finA = Inr (''1.2.0'', ''imgA'') \<and>
   FromImage (registry pkgA pkgB) ''A'' ''1.2.0'' ''imgA'' = Inr pkgA \<and>
   Store (registry pkgA pkgB) [finA \<mapsto> pkgA_old] finA pkgA = (None, [finA \<mapsto> pkgA]) \<and>
   cache_contract (registry pkgA pkgB) \<and>
   retrievePkg (registry pkgA pkgB) depA \<lparr>m_c = [finA \<mapsto> pkgA_old], m_acc = [], m_calls = []\<rparr> =
     (Inr pkgA, \<lparr>m_c = [finA \<mapsto> pkgA], m_acc = [],
                 m_calls = [CallResolveTag depA, CallGet finA, CallResolveDigest finA,
                            CallResolveImage finA, CallFromImage ''A'' ''1.2.0'' ''imgA'',
                            CallStore finA pkgA]\<rparr>) \<and>
   Get (registry pkgA pkgB) [finA \<mapsto> pkgA] finA = Inr pkgA \<and>
   map_option fst (Resolve (registry pkgA pkgB) depA \<lparr>m_c = [finA \<mapsto> pkgA_old], m_acc = [], m_calls = []\<rparr>) =
     Some (\<lparr>Package = ''A'', Type = ''Configuration'', Constraints = ''1.2.0''\<rparr>, [pkgA, pkgB], None) \<and>
   prefix ([] @ [pkgA]) [pkgA, pkgB] \<and>
   ResolveTag (registry pkgA pkgB) depB = Inr ''2.3.0'' \<and>
   Get (registry pkgA pkgB) [finB \<mapsto> pkgB] finB = Inr pkgB \<and>
   ResolveDigest (registry pkgA pkgB) finB = Inr (Digest pkgB) \<and>
   Dependencies pkgB = [] \<and>
   Resolve (registry pkgA pkgB) depB \<lparr>m_c = [finB \<mapsto> pkgB], m_acc = [], m_calls = []\<rparr> =
     Some ((\<lparr>Package = ''B'', Type = ''Provider'', Constraints = ''2.3.0''\<rparr>, [pkgB], None),
           \<lparr>m_c = [finB \<mapsto> pkgB], m_acc = [pkgB],
            m_calls = [CallResolveTag depB, CallGet finB, CallResolveDigest finB]\<rparr>)"
proof -
  let ?R = "registry pkgA pkgB"
  let ?mf = "\<lparr>m_c = [finA \<mapsto> pkgA], m_acc = [], m_calls = []\<rparr> :: LocalCache Manager"
  let ?ms = "\<lparr>m_c = [finA \<mapsto> pkgA_old], m_acc = [], m_calls = []\<rparr> :: LocalCache Manager"
  let ?mb = "\<lparr>m_c = [finB \<mapsto> pkgB], m_acc = [], m_calls = []\<rparr> :: LocalCache Manager"
  have fin: "depA\<lparr>Constraints := ''1.2.0''\<rparr> = finA" by (simp add: finA_def)
  have finb: "depB\<lparr>Constraints := ''2.3.0''\<rparr> = finB" by (simp add: finB_def)
  have pk: "Package depA = ''A''" by (simp add: depA_def)
  have pkb: "Package depB = ''B''" by (simp add: depB_def)
  have tag: "ResolveTag ?R depA = Inr ''1.2.0''" by (simp add: world_defs)
  have tagb: "ResolveTag ?R depB = Inr ''2.3.0''" by (simp add: world_defs)
  have hitf: "Get ?R [finA \<mapsto> pkgA] finA = Inr pkgA"
    by (simp add: world_defs)
  have hits: "Get ?R [finA \<mapsto> pkgA_old] finA = Inr pkgA_old"
    by (simp add: world_defs)
  have hitb: "Get ?R [finB \<mapsto> pkgB] finB = Inr pkgB"
    by (simp add: world_defs)
  have dg: "ResolveDigest ?R finA = Inr (Digest pkgA)"
    by (simp add: world_defs)
  have dgb: "ResolveDigest ?R finB = Inr (Digest pkgB)"
    by (simp add: world_defs)
  have leafb: "Dependencies pkgB = []" by (simp add: pkgB_def)
  have tyb: "PkgType pkgB = ''Provider''" "Version pkgB = ''2.3.0''" by (simp_all add: pkgB_def)
  have ne: "Digest pkgA \<noteq> Digest pkgA_old" by (simp add: world_defs)
  have img: "ResolveImage ?R finA = Inr (''1.2.0'', ''imgA'')"
    by (simp add: world_defs)
  have mar: "FromImage ?R ''A'' ''1.2.0'' ''imgA'' = Inr pkgA"
    by (simp add: world_defs)
  have sto: "Store ?R [finA \<mapsto> pkgA_old] finA pkgA = (None, [finA \<mapsto> pkgA])"
    by (simp add: world_defs)
  have cc: "cache_contract ?R" by (rule cache_contract_registry)
  have res: "Resolve ?R depA ?ms =
     Some ((\<lparr>Package = ''A'', Type = ''Configuration'', Constraints = ''1.2.0''\<rparr>, [pkgA, pkgB], None),
       \<lparr>m_c = [finA \<mapsto> pkgA, finB \<mapsto> pkgB], m_acc = [pkgA, pkgB],
        m_calls = [CallResolveTag depA, CallGet finA, CallResolveDigest finA,
                   CallResolveImage finA, CallFromImage ''A'' ''1.2.0'' ''imgA'', CallStore finA pkgA,
                   CallResolveTag depB, CallGet finB, CallResolveImage finB,
                   CallFromImage ''B'' ''2.3.0'' ''imgB'', CallStore finB pkgB]\<rparr>)"
    by (simp add: Resolve_def resolveAllDeps_loop_eq loop_Cons loop_Nil zero_Dependency_def
          model_defs world_defs)
  have res': "map_option fst (Resolve ?R depA ?ms) =
     Some (\<lparr>Package = ''A'', Type = ''Configuration'', Constraints = ''1.2.0''\<rparr>, [pkgA, pkgB], None)"
    by (simp add: res)
  have f: "retrievePkg ?R depA ?mf =
     (Inr pkgA, \<lparr>m_c = [finA \<mapsto> pkgA], m_acc = [],
                 m_calls = [CallResolveTag depA, CallGet finA, CallResolveDigest finA]\<rparr>)"
    using cache_hit_fresh_or_stale [of ?R depA "''1.2.0''" ?mf pkgA "Digest pkgA"] tag hitf dg
    by (simp add: fin)
  have s: "retrievePkg ?R depA ?ms =
     (Inr pkgA, \<lparr>m_c = [finA \<mapsto> pkgA], m_acc = [],
                 m_calls = [CallResolveTag depA, CallGet finA, CallResolveDigest finA,
                            CallResolveImage finA, CallFromImage ''A'' ''1.2.0'' ''imgA'',
                            CallStore finA pkgA]\<rparr>) \<and>
     Get ?R [finA \<mapsto> pkgA] finA = Inr pkgA \<and> prefix ([] @ [pkgA]) [pkgA, pkgB]"
    using cache_hit_fresh_or_stale [of ?R depA "''1.2.0''" ?ms pkgA_old "Digest pkgA"]
      tag hits dg ne img mar sto cc res
    by (simp add: fin pk)
  have b: "Resolve ?R depB ?mb =
     Some ((\<lparr>Package = ''B'', Type = ''Provider'', Constraints = ''2.3.0''\<rparr>, [pkgB], None),
           \<lparr>m_c = [finB \<mapsto> pkgB], m_acc = [pkgB],
            m_calls = [CallResolveTag depB, CallGet finB, CallResolveDigest finB]\<rparr>)"
    using cache_hit_fresh_or_stale [of ?R depB "''2.3.0''" ?mb pkgB "Digest pkgB"] tagb hitb dgb leafb
    by (simp add: finb pkb tyb)
  show ?thesis
    by (intro conjI tag hitf hits dg ne img mar sto cc res' f s [THEN conjunct1]
          s [THEN conjunct2, THEN conjunct1] s [THEN conjunct2, THEN conjunct2]
          tagb hitb dgb leafb b)
qed

section \<open>Finalization comes first\<close>

text \<open>
  Claim C8. The first call of \<^verbatim>\<open>retrievePkg\<close> is \<^verbatim>\<open>ResolveTag\<close> for the given
  dependency. When it fails, no other call is made, the cache is unchanged and the
  error is returned. When it returns the version \<open>v\<close>, every later call of this
  \<^verbatim>\<open>retrievePkg\<close> (cache lookup, digest, fetch, marshaling, store) is made for the
  identity whose constraint has been replaced by \<open>v\<close>. \<^verbatim>\<open>Resolve\<close> and
  \<^verbatim>\<open>resolveAllDeps\<close> reach the cache and the registry through \<^verbatim>\<open>retrievePkg\<close>
  only.
\<close>

theorem finalized_before_cache_and_fetch:
  assumes "retrievePkg env d m = (r, m')"
  shows "\<exists>evs. m_calls m' = m_calls m @ CallResolveTag d # evs \<and>
           (case ResolveTag env d of
              Inl err \<Rightarrow> evs = [] \<and> r = Inl err \<and> m_c m' = m_c m
            | Inr v \<Rightarrow> \<forall>ev \<in> set evs. made_for (d\<lparr>Constraints := v\<rparr>) ev)"
proof (cases "ResolveTag env d")
  case (Inl err)
  with assms show ?thesis by (auto simp: retrievePkg_tag_fail logcall_def)
next
  case (Inr v)
  let ?d = "d\<lparr>Constraints := v\<rparr>"
  have add: "\<exists>evs. m_calls m2 = m_calls m1 @ evs \<and> (\<forall>ev \<in> set evs. made_for ?d ev)"
    if "addPkg env ?d m1 = (r, m2)" for m1 m2
    using that
    by (auto simp: addPkg_def logcall_def Let_def split: sum.splits prod.splits option.splits)
  have "\<exists>evs. m_calls m' = m_calls m @ CallResolveTag d # evs \<and> (\<forall>ev \<in> set evs. made_for ?d ev)"
  proof (cases "Get env (m_c m) ?d")
    case (Inl e)
    show ?thesis
    proof (cases "IsNotExist e")
      case True
      with Inr Inl assms obtain evs where
        "m_calls m' = m_calls (logcall (CallGet ?d) (logcall (CallResolveTag d) m)) @ evs"
        "\<forall>ev \<in> set evs. made_for ?d ev"
        using add by (metis retrievePkg_miss)
      then show ?thesis by (auto simp: logcall_def)
    next
      case False
      with Inr Inl assms show ?thesis
        by (auto simp: retrievePkg_def finalizeDepVersion_def logcall_def Let_def)
    qed
  next
    case hit: (Inr q)
    show ?thesis
    proof (cases "ResolveDigest env ?d")
      case (Inl e)
      with Inr hit assms show ?thesis
        by (auto simp: retrievePkg_def finalizeDepVersion_def logcall_def Let_def)
    next
      case dg: (Inr g)
      show ?thesis
      proof (cases "g = Digest q")
        case True
        with Inr hit dg assms show ?thesis by (auto simp: retrievePkg_hit_fresh)
      next
        case False
        with Inr hit dg assms obtain evs where
          "m_calls m' = m_calls (logcall (CallResolveDigest ?d)
             (logcall (CallGet ?d) (logcall (CallResolveTag d) m))) @ evs"
          "\<forall>ev \<in> set evs. made_for ?d ev"
          using add by (metis retrievePkg_hit_stale)
        then show ?thesis by (auto simp: logcall_def)
      qed
    qed
  qed
  with Inr show ?thesis by simp
qed

theorem finalized_before_cache_and_fetch_witness:
  "retrievePkg (registry pkgA pkgB) depA (New Map.empty) =
     (Inr pkgA, \<lparr>m_c = [finA \<mapsto> pkgA], m_acc = [],
                 m_calls = [CallResolveTag depA, CallGet finA, CallResolveImage finA,
                            CallFromImage ''A'' ''1.2.0'' ''imgA'', CallStore finA pkgA]\<rparr>) \<and>
   (\<exists>evs. [CallResolveTag depA, CallGet finA, CallResolveImage finA,
            CallFromImage ''A'' ''1.2.0'' ''imgA'', CallStore finA pkgA] = CallResolveTag depA # evs \<and>
      (\<forall>ev \<in> set evs. made_for finA ev)) \<and>
   retrievePkg (registry pkgA pkgB) depC (New Map.empty) =
     (Inl (Failure ''no such package''),
      \<lparr>m_c = Map.empty, m_acc = [], m_calls = [CallResolveTag depC]\<rparr>) \<and>
   (\<exists>evs. [CallResolveTag depC] = CallResolveTag depC # evs \<and> evs = [])"
proof -
  let ?m' = "\<lparr>m_c = [finA \<mapsto> pkgA], m_acc = [],
                 m_calls = [CallResolveTag depA, CallGet finA, CallResolveImage finA,
                            CallFromImage ''A'' ''1.2.0'' ''imgA'', CallStore finA pkgA]\<rparr>"
  let ?mC = "\<lparr>m_c = Map.empty, m_acc = [], m_calls = [CallResolveTag depC]\<rparr> :: LocalCache Manager"
  have h: "retrievePkg (registry pkgA pkgB) depA (New Map.empty) = (Inr pkgA, ?m')"
    by (simp add: model_defs world_defs)
  have hC: "retrievePkg (registry pkgA pkgB) depC (New Map.empty) =
      (Inl (Failure ''no such package''), ?mC)"
    by (simp add: model_defs world_defs)
  have tag: "ResolveTag (registry pkgA pkgB) depA = Inr ''1.2.0''" by (simp add: world_defs)
  have tagC: "ResolveTag (registry pkgA pkgB) depC = Inl (Failure ''no such package'')"
    by (simp add: world_defs)
  have fin: "depA\<lparr>Constraints := ''1.2.0''\<rparr> = finA" by (simp add: finA_def)
  have 1: "\<exists>evs. [CallResolveTag depA, CallGet finA, CallResolveImage finA,
            CallFromImage ''A'' ''1.2.0'' ''imgA'', CallStore finA pkgA] = CallResolveTag depA # evs \<and>
      (\<forall>ev \<in> set evs. made_for finA ev)"
    using finalized_before_cache_and_fetch [OF h] by (simp add: tag fin New_def)
  have 2: "\<exists>evs. [CallResolveTag depC] = CallResolveTag depC # evs \<and> evs = []"
    using finalized_before_cache_and_fetch [OF hC] by (simp add: tagC New_def)
  show ?thesis by (intro conjI h 1 hC 2)
qed

section \<open>Write-through\<close>

text \<open>
  Claim C9. Under the contract of the cache: when \<^verbatim>\<open>retrievePkg\<close> succeeds on the
  cache-miss path (\<^verbatim>\<open>Get\<close> reports an error) or on the stale-digest path (the cached
  digest differs from the registry's), the package it returns is the one fetched from
  the registry and marshaled, \<^verbatim>\<open>Store\<close> has been called with it for the finalized
  identity, and a \<^verbatim>\<open>Get\<close> for that identity on the resulting cache returns this
  package, whose digest is therefore the digest of what the registry served at the
  fetch; for a consistent registry this is the digest \<^verbatim>\<open>ResolveDigest\<close> reports.
\<close>

theorem cache_write_through:
  assumes contract: "cache_contract env"
    and tag: "ResolveTag env d = Inr v"
    and path: "(\<exists>e. Get env (m_c m) (d\<lparr>Constraints := v\<rparr>) = Inl e) \<or>
               (\<exists>q g. Get env (m_c m) (d\<lparr>Constraints := v\<rparr>) = Inr q \<and>
                  ResolveDigest env (d\<lparr>Constraints := v\<rparr>) = Inr g \<and> Digest q \<noteq> g)"
    and ok: "retrievePkg env d m = (Inr p, m')"
  shows "fetched env (d\<lparr>Constraints := v\<rparr>) = Inr p \<and>
         CallStore (d\<lparr>Constraints := v\<rparr>) p \<in> set (m_calls m') \<and>
         Get env (m_c m') (d\<lparr>Constraints := v\<rparr>) = Inr p \<and>
         (registry_consistent env \<longrightarrow> ResolveDigest env (d\<lparr>Constraints := v\<rparr>) = Inr (Digest p))"
proof -
  let ?d = "d\<lparr>Constraints := v\<rparr>"
  have "\<exists>m1. m_c m1 = m_c m \<and> addPkg env ?d m1 = (Inr p, m')"
    using path
  proof
    assume "\<exists>e. Get env (m_c m) ?d = Inl e"
    then obtain e where miss: "Get env (m_c m) ?d = Inl e" ..
    with tag ok have ne: "IsNotExist e"
      by (auto simp: retrievePkg_def finalizeDepVersion_def logcall_def Let_def split: if_splits)
    from retrievePkg_miss [OF tag miss ne] ok show ?thesis
      by (intro exI [of _ "logcall (CallGet ?d) (logcall (CallResolveTag d) m)"])
         (simp add: logcall_def)
  next
    assume "\<exists>q g. Get env (m_c m) ?d = Inr q \<and> ResolveDigest env ?d = Inr g \<and> Digest q \<noteq> g"
    then obtain q g where hit: "Get env (m_c m) ?d = Inr q"
      and dg: "ResolveDigest env ?d = Inr g" and ne: "g \<noteq> Digest q" by auto
    from retrievePkg_hit_stale [OF tag hit dg ne] ok show ?thesis
      by (intro exI [of _ "logcall (CallResolveDigest ?d)
            (logcall (CallGet ?d) (logcall (CallResolveTag d) m))"])
         (simp add: logcall_def)
  qed
  then obtain m1 where c: "m_c m1 = m_c m" and add: "addPkg env ?d m1 = (Inr p, m')" by blast
  from add obtain t i c' where img: "ResolveImage env ?d = Inr (t, i)"
    and mar: "FromImage env (Package ?d) t i = Inr p"
    and sto: "Store env (m_c m1) ?d p = (None, c')"
    and m': "m' = \<lparr>m_c = c', m_acc = m_acc m1,
              m_calls = m_calls m1 @ [CallResolveImage ?d, CallFromImage (Package ?d) t i, CallStore ?d p]\<rparr>"
    unfolding addPkg_Inr by blast
  have f: "fetched env ?d = Inr p" using img mar by (simp add: fetched_def)
  have g: "Get env (m_c m') ?d = Inr p"
    using contract sto m' unfolding cache_contract_def by auto
  have s: "CallStore ?d p \<in> set (m_calls m')" using m' by simp
  have r: "ResolveDigest env ?d = Inr (Digest p)" if "registry_consistent env"
    using that f unfolding registry_consistent_def by blast
  from f g s r show ?thesis by blast
qed

theorem cache_write_through_witness:
  "cache_contract (registry pkgA pkgB) \<and>
   ResolveTag (registry pkgA pkgB) depA = Inr ''1.2.0'' \<and>
   Get (registry pkgA pkgB) Map.empty finA = Inl (NotExist ''cache'') \<and>
   retrievePkg (registry pkgA pkgB) depA (New Map.empty) =
     (Inr pkgA, \<lparr>m_c = [finA \<mapsto> pkgA], m_acc = [],
                 m_calls = [CallResolveTag depA, CallGet finA, CallResolveImage finA,
                            CallFromImage ''A'' ''1.2.0'' ''imgA'', CallStore finA pkgA]\<rparr>) \<and>
   registry_consistent (registry pkgA pkgB) \<and>
   fetched (registry pkgA pkgB) finA = Inr pkgA \<and>
   Get (registry pkgA pkgB) [finA \<mapsto> pkgA] finA = Inr pkgA \<and>
   ResolveDigest (registry pkgA pkgB) finA = Inr (Digest pkgA) \<and>
   Get (registry pkgA pkgB) [finA \<mapsto> pkgA_old] finA = Inr pkgA_old \<and>
   Digest pkgA_old \<noteq> Digest pkgA \<and>
   retrievePkg (registry pkgA pkgB) depA \<lparr>m_c = [finA \<mapsto> pkgA_old], m_acc = [], m_calls = []\<rparr> =
     (Inr pkgA, \<lparr>m_c = [finA \<mapsto> pkgA], m_acc = [],
                 m_calls = [CallResolveTag depA, CallGet finA, CallResolveDigest finA,
                            CallResolveImage finA, CallFromImage ''A'' ''1.2.0'' ''imgA'',
                            CallStore finA pkgA]\<rparr>)"
proof -
  let ?R = "registry pkgA pkgB"
  let ?m0 = "New Map.empty :: LocalCache Manager"
  let ?ms = "\<lparr>m_c = [finA \<mapsto> pkgA_old], m_acc = [], m_calls = []\<rparr> :: LocalCache Manager"
  let ?m1 = "\<lparr>m_c = [finA \<mapsto> pkgA], m_acc = [],
                 m_calls = [CallResolveTag depA, CallGet finA, CallResolveImage finA,
                            CallFromImage ''A'' ''1.2.0'' ''imgA'', CallStore finA pkgA]\<rparr>"
  let ?m2 = "\<lparr>m_c = [finA \<mapsto> pkgA], m_acc = [],
                 m_calls = [CallResolveTag depA, CallGet finA, CallResolveDigest finA,
                            CallResolveImage finA, CallFromImage ''A'' ''1.2.0'' ''imgA'',
                            CallStore finA pkgA]\<rparr>"
  have fin: "depA\<lparr>Constraints := ''1.2.0''\<rparr> = finA" by (simp add: finA_def)
  have cc: "cache_contract ?R" by (rule cache_contract_registry)
  have rc: "registry_consistent ?R" by (rule registry_consistent_registry)
  have tag: "ResolveTag ?R depA = Inr ''1.2.0''" by (simp add: world_defs)
  have miss: "Get ?R Map.empty finA = Inl (NotExist ''cache'')" by (simp add: world_defs)
  have hit: "Get ?R [finA \<mapsto> pkgA_old] finA = Inr pkgA_old" by (simp add: world_defs)
  have dg: "ResolveDigest ?R finA = Inr (Digest pkgA)" by (simp add: world_defs)
  have ne: "Digest pkgA_old \<noteq> Digest pkgA" by (simp add: world_defs)
  have ok1: "retrievePkg ?R depA ?m0 = (Inr pkgA, ?m1)" by (simp add: model_defs world_defs)
  have ok2: "retrievePkg ?R depA ?ms = (Inr pkgA, ?m2)" by (simp add: model_defs world_defs)
  have p1: "(\<exists>e. Get ?R (m_c ?m0) (depA\<lparr>Constraints := ''1.2.0''\<rparr>) = Inl e) \<or>
            (\<exists>q g. Get ?R (m_c ?m0) (depA\<lparr>Constraints := ''1.2.0''\<rparr>) = Inr q \<and>
               ResolveDigest ?R (depA\<lparr>Constraints := ''1.2.0''\<rparr>) = Inr g \<and> Digest q \<noteq> g)"
    using miss by (simp add: fin New_def)
  have p2: "(\<exists>e. Get ?R (m_c ?ms) (depA\<lparr>Constraints := ''1.2.0''\<rparr>) = Inl e) \<or>
            (\<exists>q g. Get ?R (m_c ?ms) (depA\<lparr>Constraints := ''1.2.0''\<rparr>) = Inr q \<and>
               ResolveDigest ?R (depA\<lparr>Constraints := ''1.2.0''\<rparr>) = Inr g \<and> Digest q \<noteq> g)"
    using hit dg ne by (simp add: fin)
  have w1: "fetched ?R finA = Inr pkgA \<and> Get ?R [finA \<mapsto> pkgA] finA = Inr pkgA"
    using cache_write_through [OF cc tag p1 ok1] by (simp add: fin)
  have w2: "Get ?R [finA \<mapsto> pkgA] finA = Inr pkgA"
    using cache_write_through [OF cc tag p2 ok2] by (simp add: fin)
  show ?thesis
    by (intro conjI cc tag miss ok1 rc w1 [THEN conjunct1] w2 dg hit ne ok2)
qed

section \<open>Cache hits are verified\<close>

text \<open>
  When the finalized identity is present in the cache (with package \<open>q\<close>) and
  \<^verbatim>\<open>retrievePkg\<close> returns a package \<open>p\<close>, then \<^verbatim>\<open>ResolveDigest\<close> has been called for
  the identity during this call and has returned a digest \<open>g\<close>; the cached package
  is returned (and the cache left alone) when its digest is \<open>g\<close>, and when its
  digest differs the returned package is the one fetched from the registry. For a
  consistent registry the digest of the returned package is \<open>g\<close> in both cases.
\<close>

lemma retrievePkg_hit_verified:
  assumes tag: "ResolveTag env d = Inr v"
    and hit: "Get env (m_c m) (d\<lparr>Constraints := v\<rparr>) = Inr q"
    and ok: "retrievePkg env d m = (Inr p, m')"
  shows "\<exists>g. ResolveDigest env (d\<lparr>Constraints := v\<rparr>) = Inr g \<and>
           CallResolveDigest (d\<lparr>Constraints := v\<rparr>) \<in> set (drop (length (m_calls m)) (m_calls m')) \<and>
           (Digest q = g \<longrightarrow> p = q \<and> m_c m' = m_c m) \<and>
           (Digest q \<noteq> g \<longrightarrow> fetched env (d\<lparr>Constraints := v\<rparr>) = Inr p) \<and>
           (registry_consistent env \<longrightarrow> Digest p = g)"
proof -
  let ?d = "d\<lparr>Constraints := v\<rparr>"
  from tag hit ok obtain g where dg: "ResolveDigest env ?d = Inr g"
    by (cases "ResolveDigest env ?d")
       (auto simp: retrievePkg_def finalizeDepVersion_def logcall_def Let_def)
  show ?thesis
  proof (cases "g = Digest q")
    case True
    with retrievePkg_hit_fresh [OF tag hit] dg ok show ?thesis by auto
  next
    case False
    let ?m1 = "logcall (CallResolveDigest ?d) (logcall (CallGet ?d) (logcall (CallResolveTag d) m))"
    from retrievePkg_hit_stale [OF tag hit dg False] ok
    have add: "addPkg env ?d ?m1 = (Inr p, m')" by simp
    then obtain t i c' where img: "ResolveImage env ?d = Inr (t, i)"
      and mar: "FromImage env (Package ?d) t i = Inr p"
      and m': "m' = \<lparr>m_c = c', m_acc = m_acc ?m1,
              m_calls = m_calls ?m1 @ [CallResolveImage ?d, CallFromImage (Package ?d) t i, CallStore ?d p]\<rparr>"
      unfolding addPkg_Inr by blast
    have f: "fetched env ?d = Inr p" using img mar by (simp add: fetched_def)
    have c: "CallResolveDigest ?d \<in> set (drop (length (m_calls m)) (m_calls m'))"
      using m' by (simp add: logcall_def)
    have r: "Digest p = g" if "registry_consistent env"
      using that f dg unfolding registry_consistent_def by fastforce
    from dg False f c r show ?thesis by auto
  qed
qed

section \<open>Snapshot: the last writer wins\<close>

lemma last_decl_None: "last_decl ps k = None \<longleftrightarrow> (\<forall>p \<in> set ps. Validators p k = None)"
  by (induction ps) (auto split: option.splits)

lemma last_decl_index:
  "i < length ps \<Longrightarrow> Validators (ps ! i) k = Some v \<Longrightarrow>
   (\<forall>j. i < j \<and> j < length ps \<longrightarrow> Validators (ps ! j) k = None) \<Longrightarrow>
   last_decl ps k = Some v"
proof (induction ps arbitrary: i)
  case Nil
  then show ?case by simp
next
  case (Cons p ps)
  show ?case
  proof (cases i)
    case 0
    have "\<forall>q \<in> set ps. Validators q k = None"
    proof
      fix q assume "q \<in> set ps"
      then obtain j where "j < length ps" "ps ! j = q" by (auto simp: in_set_conv_nth)
      with Cons.prems(3) [rule_format, of "Suc j"] 0 show "Validators q k = None" by simp
    qed
    then have "last_decl ps k = None" by (simp add: last_decl_None)
    with Cons.prems(2) 0 show ?thesis by simp
  next
    case (Suc i')
    have "\<forall>j. i' < j \<and> j < length ps \<longrightarrow> Validators (ps ! j) k = None"
    proof (intro allI impI)
      fix j assume "i' < j \<and> j < length ps"
      with Cons.prems(3) [rule_format, of "Suc j"] Suc show "Validators (ps ! j) k = None" by simp
    qed
    with Cons.IH [of i'] Cons.prems(1,2) Suc have "last_decl ps k = Some v" by simp
    then show ?thesis by simp
  qed
qed

lemma merge_acc_last_decl:
  "merge_acc vw ps k = (case last_decl ps k of Some v \<Rightarrow> Some v | None \<Rightarrow> vw k)"
  unfolding merge_acc_def
  by (induction ps arbitrary: vw) (auto simp: map_add_def split: option.splits)

lemma last_decl_prefix_None:
  "prefix xs ys \<Longrightarrow> last_decl ys k = None \<Longrightarrow> last_decl xs k = None"
  by (auto simp: last_decl_None prefix_def)

lemma Snapshot_loop_view:
  "Snapshot_loop env ds vw m = Some (Inr snap, m') \<Longrightarrow>
   (\<forall>k. last_decl (m_acc m) k = None \<longrightarrow> vw k = None) \<Longrightarrow>
   (ds = [] \<longrightarrow> (\<forall>k. vw k = last_decl (m_acc m) k)) \<Longrightarrow>
   view snap k = last_decl (m_acc m') k"
proof (induction ds arbitrary: vw m)
  case Nil
  then show ?case by auto
next
  case (Cons d ds)
  from Cons.prems(1) obtain ud ps m1 where
    res: "Resolve env d m = Some ((ud, ps, None), m1)"
    and rest: "Snapshot_loop env ds (merge_acc vw ps) m1 = Some (Inr snap, m')"
    by (auto split: option.splits prod.splits)
  from Resolve_acc(1,2) [OF res] have ps: "ps = m_acc m1" and pre: "prefix (m_acc m) ps" .
  have eq: "merge_acc vw ps k' = last_decl (m_acc m1) k'" for k'
    using Cons.prems(2) last_decl_prefix_None [OF pre, of k']
    by (auto simp: merge_acc_last_decl ps split: option.splits)
  show ?case
    by (rule Cons.IH [OF rest]) (simp_all add: eq)
qed

text \<open>
  Claim C7. \<^verbatim>\<open>Snapshot\<close> has returned a snapshot, and the accumulator of the Manager
  is then \<open>m_acc m'\<close> (the Manager was new, or at least one dependency was given, so
  that the accumulator has been merged). For every type identifier \<open>k\<close>: when the
  package at position \<open>i\<close> of the accumulator declares the validator \<open>v\<close> for
  \<open>k\<close> and no package at a later position declares \<open>k\<close>, the view maps \<open>k\<close> to
  \<open>v\<close>; when no package declares \<open>k\<close>, the view has no entry for \<open>k\<close>.
\<close>

theorem Snapshot_last_writer_wins:
  assumes snap: "Snapshot env deps m = Some (Inr snap, m')"
    and start: "deps \<noteq> [] \<or> m_acc m = []"
  shows "(\<forall>i < length (m_acc m'). \<forall>v.
            Validators (m_acc m' ! i) k = Some v \<and>
            (\<forall>j. i < j \<and> j < length (m_acc m') \<longrightarrow> Validators (m_acc m' ! j) k = None) \<longrightarrow>
            View snap k = Some v) \<and>
         ((\<forall>p \<in> set (m_acc m'). Validators p k = None) \<longrightarrow> View snap k = None)"
proof -
  have "view snap k = last_decl (m_acc m') k"
    using snap start unfolding Snapshot_def
    by (intro Snapshot_loop_view [where vw = Map.empty and ds = deps and m = m and env = env]) auto
  then show ?thesis
    by (auto simp: View_def last_decl_None dest: last_decl_index)
qed

theorem Snapshot_last_writer_wins_witness:
  "\<exists>snap m'. Snapshot (registry pkgA pkgB) [depA] (New Map.empty) = Some (Inr snap, m') \<and>
     [depA] \<noteq> [] \<and>
     m_acc m' = [pkgA, pkgB] \<and>
     Validators pkgA gvkT = Some 1 \<and> Validators pkgB gvkT = Some 2 \<and>
     View snap gvkT = Some 2 \<and>
     Validators pkgA gvkU = Some 3 \<and> Validators pkgB gvkU = None \<and>
     View snap gvkU = Some 3 \<and>
     (\<forall>p \<in> set [pkgA, pkgB]. Validators p (gvkU\<lparr>Kind := ''V''\<rparr>) = None) \<and>
     View snap (gvkU\<lparr>Kind := ''V''\<rparr>) = None"
proof -
  let ?R = "registry pkgA pkgB"
  let ?m0 = "New Map.empty :: LocalCache Manager"
  let ?m' = "\<lparr>m_c = [finA \<mapsto> pkgA, finB \<mapsto> pkgB], m_acc = [pkgA, pkgB],
        m_calls = [CallResolveTag depA, CallGet finA,
                   CallResolveImage finA, CallFromImage ''A'' ''1.2.0'' ''imgA'', CallStore finA pkgA,
                   CallResolveTag depB, CallGet finB, CallResolveImage finB,
                   CallFromImage ''B'' ''2.3.0'' ''imgB'', CallStore finB pkgB]\<rparr>"
  let ?snap = "\<lparr>view = merge_acc Map.empty [pkgA, pkgB]\<rparr>"
  let ?V = "gvkU\<lparr>Kind := ''V''\<rparr>"
  have res: "Resolve ?R depA ?m0 =
     Some ((\<lparr>Package = ''A'', Type = ''Configuration'', Constraints = ''1.2.0''\<rparr>, [pkgA, pkgB], None), ?m')"
    by (simp add: Resolve_def resolveAllDeps_loop_eq loop_Cons loop_Nil zero_Dependency_def
          model_defs world_defs)
  have sn: "Snapshot ?R [depA] ?m0 = Some (Inr ?snap, ?m')"
    by (simp add: Snapshot_def res)
  have ne: "gvkT \<noteq> gvkU" "gvkT \<noteq> ?V" "gvkU \<noteq> ?V" by (simp_all add: gvkT_def gvkU_def)
  have vA: "Validators pkgA gvkT = Some 1" "Validators pkgA gvkU = Some 3"
    using ne by (simp_all add: pkgA_def)
  have vB: "Validators pkgB gvkT = Some 2" "Validators pkgB gvkU = None"
    using ne by (simp_all add: pkgB_def)
  have vV: "\<forall>p \<in> set [pkgA, pkgB]. Validators p ?V = None"
    using ne by (simp add: pkgA_def pkgB_def)
  have st: "[depA] \<noteq> [] \<or> m_acc ?m0 = []" by simp
  have t: "View ?snap gvkT = Some 2"
    using Snapshot_last_writer_wins [OF sn st, of gvkT, THEN conjunct1, rule_format, of 1 2] vB
    by simp
  have u: "View ?snap gvkU = Some 3"
    using Snapshot_last_writer_wins [OF sn st, of gvkU, THEN conjunct1, rule_format, of 0 3] vA vB
    by simp
  have n: "View ?snap ?V = None"
    using Snapshot_last_writer_wins [OF sn st, of ?V, THEN conjunct2] vV by simp
  from sn vA vB vV t u n show ?thesis by simp
qed

section \<open>Traversals of the dependency graph\<close>

lemma worldD:
  assumes "world env W I D" "d \<in> D" "I (m_c m)" "retrievePkg env d m = (r, m')"
  shows "I (m_c m')" and "r = Inr e \<Longrightarrow> e = W d" and "set (Dependencies (W d)) \<subseteq> D"
  using assms unfolding world_def by blast+

lemma run_terminates_deps:
  assumes w: "world env W I D" and wf: "wf ((dep_edges W D)\<inverse>)"
  shows "d \<in> D \<Longrightarrow> set ds \<subseteq> set (Dependencies (W d)) \<Longrightarrow> I (m_c m) \<Longrightarrow>
         \<exists>r m'. run env ds m (r, m') \<and> I (m_c m')"
  using wf
proof (induction d arbitrary: ds m rule: wf_induct_rule)
  case (less d)
  from less.prems show ?case
  proof (induction ds arbitrary: m)
    case Nil
    then show ?case by (auto intro: run_Nil)
  next
    case (Cons d' ds)
    have d'D: "d' \<in> D" using worldD(3) [OF w Cons.prems(1)] Cons.prems by (cases "retrievePkg env d m") auto
    have edge: "(d', d) \<in> (dep_edges W D)\<inverse>" using Cons.prems by (simp add: dep_edges_def)
    obtain x m1 where rp: "retrievePkg env d' m = (x, m1)" by (cases "retrievePkg env d' m")
    have I1: "I (m_c m1)" using worldD(1) [OF w d'D Cons.prems(3) rp] .
    show ?case
    proof (cases x)
      case (Inl err)
      with rp I1 show ?thesis by (auto intro: run_fail)
    next
      case (Inr e)
      then have e: "e = W d'" using worldD(2) [OF w d'D Cons.prems(3) rp] by simp
      let ?m2 = "m1\<lparr>m_acc := m_acc m1 @ [e]\<rparr>"
      have "\<exists>r m'. run env (Dependencies (W d')) ?m2 (r, m') \<and> I (m_c m')"
        using less.IH [OF edge d'D, of "Dependencies (W d')" ?m2] I1 by simp
      then obtain r1 m3 where r1: "run env (Dependencies e) ?m2 (r1, m3)" and I3: "I (m_c m3)"
        using e by auto
      show ?thesis
      proof (cases r1)
        case (Some err)
        with r1 rp Inr I3 show ?thesis by (auto intro: run_deep)
      next
        case None
        from Cons.IH [of m3] Cons.prems I3 obtain r m' where "run env ds m3 (r, m')" "I (m_c m')"
          by auto
        with r1 rp Inr None show ?thesis by (auto intro: run_next)
      qed
    qed
  qed
qed

lemma dep_edges_subset: "world env W I D \<Longrightarrow> dep_edges W D \<subseteq> D \<times> D"
  unfolding world_def dep_edges_def by auto

lemma wf_dep_edges:
  assumes "world env W I D" "finite D" "acyclic (dep_edges W D)"
  shows "wf ((dep_edges W D)\<inverse>)"
proof -
  have "finite (dep_edges W D)"
    using dep_edges_subset [OF assms(1)] assms(2) by (meson finite_SigmaI finite_subset)
  then show ?thesis using assms(3) by (rule finite_acyclic_wf_converse)
qed

lemma no_retrieval_errorsD:
  "no_retrieval_errors env I D \<Longrightarrow> d \<in> D \<Longrightarrow> I (m_c m) \<Longrightarrow>
   \<exists>e m'. retrievePkg env d m = (Inr e, m')"
  unfolding no_retrieval_errors_def by blast

lemma run_no_cycle:
  assumes w: "world env W I D" and ne: "no_retrieval_errors env I D"
  shows "run env ds m r \<Longrightarrow> set ds \<subseteq> D \<Longrightarrow> I (m_c m) \<Longrightarrow>
         fst r = None \<and> I (m_c (snd r)) \<and> set ds \<subseteq> Wellfounded.acc ((dep_edges W D)\<inverse>)"
proof (induction rule: run.induct)
  case (run_Nil m)
  then show ?case by simp
next
  case (run_fail d m err m1 ds)
  then have "d \<in> D" by simp
  from no_retrieval_errorsD [OF ne this run_fail.prems(2)] run_fail.hyps
  show ?case by simp
next
  case (run_deep d m e m1 err m3 ds)
  have dD: "d \<in> D" using run_deep.prems(1) by simp
  have "I (m_c m1)" "set (Dependencies (W d)) \<subseteq> D"
    using worldD(1,3) [OF w dD run_deep.prems(2) run_deep.hyps(1)] by blast+
  moreover have "e = W d"
    using worldD(2) [OF w dD run_deep.prems(2) run_deep.hyps(1)] by simp
  ultimately have "fst (Some err, m3) = None"
    using run_deep.IH by simp
  then show ?case by simp
next
  case (run_next d m e m1 m3 ds r)
  have dD: "d \<in> D" and dsD: "set ds \<subseteq> D" using run_next.prems(1) by simp_all
  have I1: "I (m_c m1)" and cl: "set (Dependencies (W d)) \<subseteq> D"
    using worldD(1,3) [OF w dD run_next.prems(2) run_next.hyps(1)] by blast+
  have e: "e = W d"
    using worldD(2) [OF w dD run_next.prems(2) run_next.hyps(1)] by simp
  have "fst (None :: error option, m3) = None \<and> I (m_c (snd (None :: error option, m3))) \<and>
        set (Dependencies e) \<subseteq> Wellfounded.acc ((dep_edges W D)\<inverse>)"
    using run_next.IH(1) e I1 cl by simp
  then have I3: "I (m_c m3)"
    and a1: "set (Dependencies (W d)) \<subseteq> Wellfounded.acc ((dep_edges W D)\<inverse>)"
    using e by simp_all
  have r: "fst r = None \<and> I (m_c (snd r)) \<and> set ds \<subseteq> Wellfounded.acc ((dep_edges W D)\<inverse>)"
    using run_next.IH(2) dsD I3 by simp
  have "d \<in> Wellfounded.acc ((dep_edges W D)\<inverse>)"
  proof (rule accI)
    fix y assume "(y, d) \<in> (dep_edges W D)\<inverse>"
    then have "y \<in> set (Dependencies (W d))" by (simp add: dep_edges_def)
    with a1 show "y \<in> Wellfounded.acc ((dep_edges W D)\<inverse>)" by blast
  qed
  with r show ?case by simp
qed

lemma acc_no_cycle: "x \<in> Wellfounded.acc r \<Longrightarrow> (x, x) \<notin> r\<^sup>+"
proof (induct x rule: acc_induct_rule)
  case (1 x)
  show ?case
  proof
    assume "(x, x) \<in> r\<^sup>+"
    then obtain y where xy: "(x, y) \<in> r\<^sup>*" and yx: "(y, x) \<in> r" by (auto dest: tranclD2)
    then have "(y, y) \<in> r\<^sup>+" by (meson rtrancl_into_trancl2)
    with 1 yx show False by blast
  qed
qed

lemma cycle_not_acc:
  assumes "(d, c) \<in> E\<^sup>*" "(c, c) \<in> E\<^sup>+"
  shows "d \<notin> Wellfounded.acc (E\<inverse>)"
proof
  assume "d \<in> Wellfounded.acc (E\<inverse>)"
  moreover have "(c, d) \<in> (E\<inverse>)\<^sup>*" using assms(1) by (simp add: rtrancl_converse)
  ultimately have "c \<in> Wellfounded.acc (E\<inverse>)" by (rule acc_downwards)
  then have "(c, c) \<notin> (E\<inverse>)\<^sup>+" by (rule acc_no_cycle)
  with assms(2) show False by (simp add: trancl_converse)
qed

lemma loop_terminates:
  assumes "world env W I D" "finite D" "acyclic (dep_edges W D)" "I (m_c m)" "set ds \<subseteq> D"
  shows "\<exists>r m'. run env ds m (r, m') \<and> I (m_c m')"
  using assms(4,5)
proof (induction ds arbitrary: m)
  case Nil
  then show ?case by (auto intro: run_Nil)
next
  case (Cons d ds)
  note wf = wf_dep_edges [OF assms(1-3)]
  have dD: "d \<in> D" using Cons.prems by simp
  obtain x m1 where rp: "retrievePkg env d m = (x, m1)" by (cases "retrievePkg env d m")
  have I1: "I (m_c m1)" using worldD(1) [OF assms(1) dD Cons.prems(1) rp] .
  show ?case
  proof (cases x)
    case (Inl err)
    with rp I1 show ?thesis by (auto intro: run_fail)
  next
    case (Inr e)
    then have e: "e = W d" using worldD(2) [OF assms(1) dD Cons.prems(1) rp] by simp
    let ?m2 = "m1\<lparr>m_acc := m_acc m1 @ [e]\<rparr>"
    have "\<exists>r m'. run env (Dependencies (W d)) ?m2 (r, m') \<and> I (m_c m')"
      using run_terminates_deps [OF assms(1) wf dD, of "Dependencies (W d)" ?m2] I1 by simp
    then obtain r1 m3 where r1: "run env (Dependencies e) ?m2 (r1, m3)" and I3: "I (m_c m3)"
      using e by auto
    show ?thesis
    proof (cases r1)
      case (Some err)
      with r1 rp Inr I3 show ?thesis by (auto intro: run_deep)
    next
      case None
      from Cons.IH [of m3] Cons.prems I3 obtain r m' where "run env ds m3 (r, m')" "I (m_c m')"
        by auto
      with r1 rp Inr None show ?thesis by (auto intro: run_next)
    qed
  qed
qed

lemma loop_diverges:
  assumes w: "world env W I D" and ne: "no_retrieval_errors env I D"
    and "I (m_c m)" "set ds \<subseteq> D"
    and cyc: "\<exists>d \<in> set ds. \<exists>c. (d, c) \<in> (dep_edges W D)\<^sup>* \<and> (c, c) \<in> (dep_edges W D)\<^sup>+"
  shows "resolveAllDeps_loop env ds m = None"
proof (rule ccontr)
  assume "resolveAllDeps_loop env ds m \<noteq> None"
  then obtain r where "run env ds m r" by (auto simp: loop_eq_Some_iff)
  from run_no_cycle [OF w ne this assms(4,3)]
  have sub: "set ds \<subseteq> Wellfounded.acc ((dep_edges W D)\<inverse>)" by simp
  from cyc obtain d c where "d \<in> set ds" and dc: "(d, c) \<in> (dep_edges W D)\<^sup>*"
    and cc: "(c, c) \<in> (dep_edges W D)\<^sup>+" by blast
  with sub have "d \<in> Wellfounded.acc ((dep_edges W D)\<inverse>)" by blast
  with cycle_not_acc [OF dc cc] show False by simp
qed


lemma dfs_run:
  assumes w: "world env W I D" and ne: "no_retrieval_errors env I D"
  shows "dfs_preorder W ds xs \<Longrightarrow> set ds \<subseteq> D \<Longrightarrow> I (m_c m) \<Longrightarrow>
         \<exists>m'. run env ds m (None, m') \<and> m_acc m' = m_acc m @ xs \<and> I (m_c m')"
proof (induction arbitrary: m rule: dfs_preorder.induct)
  case dfs_Nil
  then show ?case by (auto intro: run_Nil)
next
  case (dfs_Cons d xs ds ys)
  have dD: "d \<in> D" and dsD: "set ds \<subseteq> D" using dfs_Cons.prems(1) by simp_all
  from no_retrieval_errorsD [OF ne dD dfs_Cons.prems(2)]
  obtain e m1 where rp: "retrievePkg env d m = (Inr e, m1)" by blast
  have I1: "I (m_c m1)" and cl: "set (Dependencies (W d)) \<subseteq> D"
    using worldD(1,3) [OF w dD dfs_Cons.prems(2) rp] by blast+
  have e: "e = W d" using worldD(2) [OF w dD dfs_Cons.prems(2) rp] by simp
  have a1: "m_acc m1 = m_acc m" using rp by (rule retrievePkg_acc)
  let ?m2 = "m1\<lparr>m_acc := m_acc m1 @ [e]\<rparr>"
  from dfs_Cons.IH(1) [OF cl, of ?m2] I1
  obtain m3 where r1: "run env (Dependencies (W d)) ?m2 (None, m3)"
    and a3: "m_acc m3 = m_acc ?m2 @ xs" and I3: "I (m_c m3)" by auto
  from dfs_Cons.IH(2) [OF dsD I3]
  obtain m' where r2: "run env ds m3 (None, m')"
    and a': "m_acc m' = m_acc m3 @ ys" and I': "I (m_c m')" by auto
  have "run env (d # ds) m (None, m')"
    using rp r1 r2 e by (auto intro: run_next)
  moreover have "m_acc m' = m_acc m @ W d # xs @ ys"
    using a' a3 a1 e by simp
  ultimately show ?case using I' by blast
qed

lemma dfs_exists_deps:
  assumes w: "world env W I D" and wf: "wf ((dep_edges W D)\<inverse>)"
  shows "d \<in> D \<Longrightarrow> set ds \<subseteq> set (Dependencies (W d)) \<Longrightarrow> \<exists>xs. dfs_preorder W ds xs"
  using wf
proof (induction d arbitrary: ds rule: wf_induct_rule)
  case (less d)
  from less.prems show ?case
  proof (induction ds)
    case Nil
    show ?case by (blast intro: dfs_Nil)
  next
    case (Cons d' ds)
    have cl: "set (Dependencies (W d)) \<subseteq> D" using w Cons.prems(1) unfolding world_def by blast
    have d'D: "d' \<in> D" using cl Cons.prems(2) by auto
    have edge: "(d', d) \<in> (dep_edges W D)\<inverse>" using Cons.prems by (simp add: dep_edges_def)
    from less.IH [OF edge d'D, of "Dependencies (W d')"]
    obtain xs where 1: "dfs_preorder W (Dependencies (W d')) xs" by auto
    from Cons.IH Cons.prems obtain ys where 2: "dfs_preorder W ds ys" by auto
    from 1 2 show ?case by (blast intro: dfs_Cons)
  qed
qed

lemma dfs_exists:
  assumes w: "world env W I D" and wf: "wf ((dep_edges W D)\<inverse>)" and "set ds \<subseteq> D"
  shows "\<exists>xs. dfs_preorder W ds xs"
  using assms(3)
proof (induction ds)
  case Nil
  show ?case by (blast intro: dfs_Nil)
next
  case (Cons d ds)
  then have dD: "d \<in> D" by simp
  from dfs_exists_deps [OF w wf dD, of "Dependencies (W d)"]
  obtain xs where 1: "dfs_preorder W (Dependencies (W d)) xs" by auto
  from Cons obtain ys where 2: "dfs_preorder W ds ys" by auto
  from 1 2 show ?case by (blast intro: dfs_Cons)
qed

lemma dfs_complete:
  "dfs_preorder W ds xs \<Longrightarrow> d \<in> set ds \<Longrightarrow> (d, d') \<in> (dep_edges W D)\<^sup>* \<Longrightarrow>
   W d' \<in> set xs"
proof (induction arbitrary: d rule: dfs_preorder.induct)
  case dfs_Nil
  then show ?case by simp
next
  case (dfs_Cons d0 xs ds ys)
  show ?case
  proof (cases "d = d0")
    case True
    from dfs_Cons.prems(2) show ?thesis
    proof (cases rule: converse_rtranclE)
      case base
      with True show ?thesis by simp
    next
      case (step y)
      then have "y \<in> set (Dependencies (W d0))" using True by (simp add: dep_edges_def)
      from dfs_Cons.IH(1) [OF this step(2)] show ?thesis by simp
    qed
  next
    case False
    with dfs_Cons.prems(1) have "d \<in> set ds" by simp
    from dfs_Cons.IH(2) [OF this dfs_Cons.prems(2)] show ?thesis by simp
  qed
qed

lemma dfs_single:
  "dfs_preorder W [d] xs \<Longrightarrow> \<exists>ys. xs = W d # ys \<and> dfs_preorder W (Dependencies (W d)) ys"
  by (erule dfs_preorder.cases) (auto elim: dfs_preorder.cases)

section \<open>Termination and cycles\<close>

lemma world_registry:
  assumes "set (Dependencies pA) \<union> set (Dependencies pB) \<subseteq> {depA, depB}"
  shows "world (registry pA pB) (served pA pB) (cache_faithful pA pB) {depA, depB}"
proof -
  have closed: "\<forall>d \<in> {depA, depB}. set (Dependencies (served pA pB d)) \<subseteq> {depA, depB}"
    using assms by (auto simp: served_def depA_def depB_def)
  have step: "cache_faithful pA pB (m_c m') \<and> (\<forall>e. r = Inr e \<longrightarrow> e = served pA pB d)"
    if "d \<in> {depA, depB}" "cache_faithful pA pB (m_c m)"
       "retrievePkg (registry pA pB) d m = (r, m')" for d m r m'
    using that
    by (auto simp: model_defs registry_def local_Get_def local_Store_def served_def
          cache_faithful_def depA_def depB_def split: option.splits if_splits)
  show ?thesis unfolding world_def using closed step by blast
qed

lemma no_errors_registry:
  "no_retrieval_errors (registry pA pB) (cache_faithful pA pB) {depA, depB}"
  unfolding no_retrieval_errors_def
  by (auto simp: model_defs registry_def local_Get_def local_Store_def depA_def depB_def
        split: option.splits)


lemma Resolve_terminates:
  assumes w: "world env W I D" and fin: "finite D" and ac: "acyclic (dep_edges W D)"
    and inv: "I (m_c m)" and dD: "d \<in> D"
  shows "\<exists>r. Resolve env d m = Some r"
proof -
  obtain x m1 where rp: "retrievePkg env d m = (x, m1)" by (cases "retrievePkg env d m")
  show ?thesis
  proof (cases x)
    case (Inl err)
    with rp show ?thesis by (simp add: Resolve_def)
  next
    case (Inr e)
    have I1: "I (m_c m1)" and cl: "set (Dependencies (W d)) \<subseteq> D"
      using worldD(1,3) [OF w dD inv rp] by blast+
    have e: "e = W d" using worldD(2) [OF w dD inv rp] Inr by simp
    let ?m2 = "m1\<lparr>m_acc := m_acc m1 @ [e]\<rparr>"
    from loop_terminates [OF w fin ac, of ?m2 "Dependencies e"] I1 cl e
    obtain r m' where "run env (Dependencies e) ?m2 (r, m')" by auto
    then have "resolveAllDeps env e ?m2 = Some (r, m')"
      by (simp add: resolveAllDeps_loop_eq run_imp_loop)
    with rp Inr show ?thesis by (cases r) (simp_all add: Resolve_def)
  qed
qed

lemma Resolve_diverges:
  assumes w: "world env W I D" and ne: "no_retrieval_errors env I D"
    and inv: "I (m_c m)" and dD: "d \<in> D"
    and dc: "(d, c) \<in> (dep_edges W D)\<^sup>*" and cc: "(c, c) \<in> (dep_edges W D)\<^sup>+"
  shows "Resolve env d m = None"
proof -
  from no_retrieval_errorsD [OF ne dD inv]
  obtain e m1 where rp: "retrievePkg env d m = (Inr e, m1)" by blast
  have I1: "I (m_c m1)" and cl: "set (Dependencies (W d)) \<subseteq> D"
    using worldD(1,3) [OF w dD inv rp] by blast+
  have e: "e = W d" using worldD(2) [OF w dD inv rp] by simp
  from dc cc have "(d, c) \<in> (dep_edges W D)\<^sup>+" by (rule rtrancl_trancl_trancl)
  then obtain d1 where d1: "(d, d1) \<in> dep_edges W D" and d1c: "(d1, c) \<in> (dep_edges W D)\<^sup>*"
    by (blast dest: tranclD)
  from d1 have "d1 \<in> set (Dependencies (W d))" by (simp add: dep_edges_def)
  with d1c cc have cyc: "\<exists>d' \<in> set (Dependencies e). \<exists>c. (d', c) \<in> (dep_edges W D)\<^sup>* \<and>
      (c, c) \<in> (dep_edges W D)\<^sup>+"
    using e by blast
  let ?m2 = "m1\<lparr>m_acc := m_acc m1 @ [e]\<rparr>"
  have "resolveAllDeps_loop env (Dependencies e) ?m2 = None"
    using I1 cl e by (intro loop_diverges [OF w ne _ _ cyc]) simp_all
  with rp show ?thesis by (simp add: Resolve_def resolveAllDeps_loop_eq)
qed

lemma depA_neq_depB: "depA \<noteq> depB"
  by (simp add: depA_def depB_def)

lemma edges_acyclic_world: "dep_edges (served pkgA pkgB) {depA, depB} = {(depA, depB)}"
  by (auto simp: dep_edges_def served_def pkgA_def pkgB_def depA_def depB_def)

lemma edges_cyclic_world:
  "dep_edges (served pkgA pkgB_cyc) {depA, depB} = {(depA, depB), (depB, depA)}"
  by (auto simp: dep_edges_def served_def pkgA_def pkgB_def pkgB_cyc_def depA_def depB_def)

lemma acyclic_world: "acyclic (dep_edges (served pkgA pkgB) {depA, depB})"
proof -
  have "acyclic ({} :: (Dependency \<times> Dependency) set)" by (simp add: acyclic_def)
  with depA_neq_depB show ?thesis by (simp add: edges_acyclic_world)
qed

lemma cyclic_world:
  "(depA, depA) \<in> (dep_edges (served pkgA pkgB_cyc) {depA, depB})\<^sup>+"
proof -
  have "(depA, depB) \<in> dep_edges (served pkgA pkgB_cyc) {depA, depB}"
    and "(depB, depA) \<in> dep_edges (served pkgA pkgB_cyc) {depA, depB}"
    by (simp_all add: edges_cyclic_world)
  then show ?thesis by (rule trancl_into_trancl2 [OF _ r_into_trancl])
qed

text \<open>
  Claim C10. In a world whose cache invariant holds at the start: when the identities
  are finitely many and the declared-dependency edges between them are acyclic,
  \<^verbatim>\<open>resolveAllDeps\<close> returns for every package whose dependencies are among them, and
  \<^verbatim>\<open>Resolve\<close> returns for every one of them (with or without retrieval errors). When
  no retrieval fails and a declared dependency of the package (for \<^verbatim>\<open>Resolve\<close>: the
  root) reaches an identity that lies on a cycle, the call does not return: nothing in
  the recursion detects the cycle.
\<close>

theorem no_cycle_detection:
  assumes w: "world env W I D" and inv: "I (m_c m)"
  shows "(finite D \<and> acyclic (dep_edges W D) \<longrightarrow>
            (\<forall>p. set (Dependencies p) \<subseteq> D \<longrightarrow> (\<exists>r. resolveAllDeps env p m = Some r)) \<and>
            (\<forall>d \<in> D. \<exists>r. Resolve env d m = Some r)) \<and>
         (no_retrieval_errors env I D \<longrightarrow>
            (\<forall>p. set (Dependencies p) \<subseteq> D \<longrightarrow>
               (\<exists>d \<in> set (Dependencies p). \<exists>c. (d, c) \<in> (dep_edges W D)\<^sup>* \<and>
                   (c, c) \<in> (dep_edges W D)\<^sup>+) \<longrightarrow>
               resolveAllDeps env p m = None) \<and>
            (\<forall>d \<in> D. (\<exists>c. (d, c) \<in> (dep_edges W D)\<^sup>* \<and> (c, c) \<in> (dep_edges W D)\<^sup>+) \<longrightarrow>
               Resolve env d m = None))"
proof (intro conjI impI allI ballI)
  fix p :: ParsedPackage
  assume "finite D \<and> acyclic (dep_edges W D)" and "set (Dependencies p) \<subseteq> D"
  with loop_terminates [OF w _ _ inv, of "Dependencies p"]
  obtain r m' where "run env (Dependencies p) m (r, m')" by blast
  then show "\<exists>r. resolveAllDeps env p m = Some r"
    by (simp add: resolveAllDeps_loop_eq run_imp_loop)
next
  fix d assume "finite D \<and> acyclic (dep_edges W D)" and "d \<in> D"
  then show "\<exists>r. Resolve env d m = Some r"
    using Resolve_terminates [OF w _ _ inv] by blast
next
  fix p :: ParsedPackage
  assume ne: "no_retrieval_errors env I D" and sub: "set (Dependencies p) \<subseteq> D"
    and cyc: "\<exists>d \<in> set (Dependencies p). \<exists>c. (d, c) \<in> (dep_edges W D)\<^sup>* \<and>
                   (c, c) \<in> (dep_edges W D)\<^sup>+"
  from loop_diverges [OF w ne inv sub cyc]
  show "resolveAllDeps env p m = None" by (simp add: resolveAllDeps_loop_eq)
next
  fix d assume ne: "no_retrieval_errors env I D" and dD: "d \<in> D"
    and "\<exists>c. (d, c) \<in> (dep_edges W D)\<^sup>* \<and> (c, c) \<in> (dep_edges W D)\<^sup>+"
  then obtain c where "(d, c) \<in> (dep_edges W D)\<^sup>*" "(c, c) \<in> (dep_edges W D)\<^sup>+" by blast
  then show "Resolve env d m = None" by (rule Resolve_diverges [OF w ne inv dD])
qed

theorem no_cycle_detection_witness:
  "world (registry pkgA pkgB) (served pkgA pkgB) (cache_faithful pkgA pkgB) {depA, depB} \<and>
   cache_faithful pkgA pkgB (m_c (New Map.empty)) \<and>
   finite {depA, depB} \<and> acyclic (dep_edges (served pkgA pkgB) {depA, depB}) \<and>
   set (Dependencies pkgA) \<subseteq> {depA, depB} \<and>
   (\<exists>r. resolveAllDeps (registry pkgA pkgB) pkgA (New Map.empty) = Some r) \<and>
   (\<exists>r. Resolve (registry pkgA pkgB) depA (New Map.empty) = Some r) \<and>
   world (registry pkgA pkgB_cyc) (served pkgA pkgB_cyc) (cache_faithful pkgA pkgB_cyc) {depA, depB} \<and>
   cache_faithful pkgA pkgB_cyc (m_c (New Map.empty)) \<and>
   no_retrieval_errors (registry pkgA pkgB_cyc) (cache_faithful pkgA pkgB_cyc) {depA, depB} \<and>
   depB \<in> set (Dependencies pkgA) \<and>
   (depB, depA) \<in> (dep_edges (served pkgA pkgB_cyc) {depA, depB})\<^sup>* \<and>
   (depA, depA) \<in> (dep_edges (served pkgA pkgB_cyc) {depA, depB})\<^sup>+ \<and>
   resolveAllDeps (registry pkgA pkgB_cyc) pkgA (New Map.empty) = None \<and>
   Resolve (registry pkgA pkgB_cyc) depA (New Map.empty) = None"
proof -
  let ?D = "{depA, depB}"
  let ?m0 = "New Map.empty :: LocalCache Manager"
  have w1: "world (registry pkgA pkgB) (served pkgA pkgB) (cache_faithful pkgA pkgB) ?D"
    by (rule world_registry) (simp add: pkgA_def pkgB_def)
  have w2: "world (registry pkgA pkgB_cyc) (served pkgA pkgB_cyc) (cache_faithful pkgA pkgB_cyc) ?D"
    by (rule world_registry) (simp add: pkgA_def pkgB_def pkgB_cyc_def)
  have i1: "cache_faithful pkgA pkgB (m_c ?m0)" by (simp add: cache_faithful_def New_def)
  have i2: "cache_faithful pkgA pkgB_cyc (m_c ?m0)" by (simp add: cache_faithful_def New_def)
  have fin: "finite ?D" by simp
  have ne: "no_retrieval_errors (registry pkgA pkgB_cyc) (cache_faithful pkgA pkgB_cyc) ?D"
    by (rule no_errors_registry)
  have sub: "set (Dependencies pkgA) \<subseteq> ?D" by (simp add: pkgA_def)
  have mem: "depB \<in> set (Dependencies pkgA)" by (simp add: pkgA_def)
  have ba: "(depB, depA) \<in> (dep_edges (served pkgA pkgB_cyc) ?D)\<^sup>*"
    by (rule r_into_rtrancl) (simp add: edges_cyclic_world)
  have aa: "(depA, depA) \<in> (dep_edges (served pkgA pkgB_cyc) ?D)\<^sup>*" by simp
  note t1 = no_cycle_detection [where I = "cache_faithful pkgA pkgB" and m = ?m0, OF w1 i1, THEN conjunct1, rule_format, OF conjI, OF fin acyclic_world]
  note t2 = no_cycle_detection [where I = "cache_faithful pkgA pkgB_cyc" and m = ?m0, OF w2 i2, THEN conjunct2, rule_format, OF ne]
  have r1: "\<exists>r. resolveAllDeps (registry pkgA pkgB) pkgA ?m0 = Some r"
    using t1 [THEN conjunct1] sub by blast
  have r2: "\<exists>r. Resolve (registry pkgA pkgB) depA ?m0 = Some r"
    using t1 [THEN conjunct2] by blast
  have r3: "resolveAllDeps (registry pkgA pkgB_cyc) pkgA ?m0 = None"
    using t2 [THEN conjunct1] sub mem ba cyclic_world by blast
  have r4: "Resolve (registry pkgA pkgB_cyc) depA ?m0 = None"
    using t2 [THEN conjunct2] aa cyclic_world by blast
  show ?thesis
    by (intro conjI w1 i1 fin acyclic_world sub r1 r2 w2 i2 ne mem ba cyclic_world r3 r4)
qed

section \<open>Completeness and order of the accumulator\<close>

lemma Resolve_world:
  assumes w: "world env W I D" and ne: "no_retrieval_errors env I D"
    and fin: "finite D" and ac: "acyclic (dep_edges W D)"
    and inv: "I (m_c m)" and dD: "d \<in> D"
  shows "\<exists>xs m'. dfs_preorder W [d] xs \<and>
           Resolve env d m =
             Some ((\<lparr>Package = Package d, Type = PkgType (W d), Constraints = Version (W d)\<rparr>,
                    m_acc m @ xs, None), m') \<and>
           hd xs = W d \<and> (\<forall>d'. (d, d') \<in> (dep_edges W D)\<^sup>* \<longrightarrow> W d' \<in> set xs)"
proof -
  note wf = wf_dep_edges [OF w fin ac]
  from dfs_exists [OF w wf, of "[d]"] dD obtain xs where xs: "dfs_preorder W [d] xs" by auto
  from dfs_single [OF xs] obtain ys where ys: "xs = W d # ys"
    and dys: "dfs_preorder W (Dependencies (W d)) ys" by blast
  from no_retrieval_errorsD [OF ne dD inv]
  obtain e m1 where rp: "retrievePkg env d m = (Inr e, m1)" by blast
  have I1: "I (m_c m1)" and cl: "set (Dependencies (W d)) \<subseteq> D"
    using worldD(1,3) [OF w dD inv rp] by blast+
  have e: "e = W d" using worldD(2) [OF w dD inv rp] by simp
  have a1: "m_acc m1 = m_acc m" using rp by (rule retrievePkg_acc)
  let ?m2 = "m1\<lparr>m_acc := m_acc m1 @ [e]\<rparr>"
  from dfs_run [OF w ne dys cl, of ?m2] I1
  obtain m3 where r: "run env (Dependencies (W d)) ?m2 (None, m3)"
    and a3: "m_acc m3 = m_acc ?m2 @ ys" by auto
  from r e have "resolveAllDeps env e ?m2 = Some (None, m3)"
    by (simp add: resolveAllDeps_loop_eq run_imp_loop)
  with rp have "Resolve env d m =
      Some ((\<lparr>Package = Package d, Type = PkgType (W d), Constraints = Version (W d)\<rparr>,
             m_acc m3, None), m3)"
    by (simp add: Resolve_def zero_Dependency_def e)
  moreover have "m_acc m3 = m_acc m @ xs" using a3 a1 e ys by simp
  moreover have "\<forall>d'. (d, d') \<in> (dep_edges W D)\<^sup>* \<longrightarrow> W d' \<in> set xs"
    using dfs_complete [OF xs, of d _ D] by simp
  ultimately show ?thesis using xs ys by auto
qed

lemma scenario_AB:
  "Resolve (registry pkgA pkgB) depA (New Map.empty) =
     Some ((\<lparr>Package = ''A'', Type = PkgType pkgA, Constraints = ''1.2.0''\<rparr>, [pkgA, pkgB], None),
       \<lparr>m_c = [finA \<mapsto> pkgA, finB \<mapsto> pkgB], m_acc = [pkgA, pkgB],
        m_calls = [CallResolveTag depA, CallGet finA,
                   CallResolveImage finA, CallFromImage ''A'' ''1.2.0'' ''imgA'', CallStore finA pkgA,
                   CallResolveTag depB, CallGet finB, CallResolveImage finB,
                   CallFromImage ''B'' ''2.3.0'' ''imgB'', CallStore finB pkgB]\<rparr>)"
  by (simp add: Resolve_def resolveAllDeps_loop_eq loop_Cons loop_Nil zero_Dependency_def
        model_defs world_defs)

text \<open>
  Claim C3. In a world without retrieval errors, over finitely many identities with
  acyclic dependency edges, and with the cache invariant at the start: \<^verbatim>\<open>Resolve\<close>
  for a root \<open>d\<close> returns no error, the accumulator it returns is the old accumulator
  followed by the depth-first pre-order traversal \<open>xs\<close> from \<open>d\<close> (the root package
  first, each package before the traversal of its declared dependencies), every
  package of an identity reachable from \<open>d\<close> along dependency edges occurs in
  \<open>xs\<close>, and the resolved dependency carries the package reference of \<open>d\<close> with
  the type and the version of the root package. In the scenario of the spec, where
  \<open>A@^1.0\<close> finalizes to \<open>1.2.0\<close> (digest \<open>d1\<close>) and declares \<open>B@^2.0\<close>,
  which finalizes to \<open>2.3.0\<close> (digest \<open>d2\<close>) and declares nothing, \<^verbatim>\<open>Resolve\<close>
  on a new Manager returns the accumulator \<open>[pkgA, pkgB]\<close> and the identity with the
  type of \<open>pkgA\<close> and the version \<open>1.2.0\<close>.
\<close>

theorem resolve_complete_preorder:
  "(world env W I D \<and> no_retrieval_errors env I D \<and> finite D \<and> acyclic (dep_edges W D) \<and>
    I (m_c m) \<and> d \<in> D \<longrightarrow>
      (\<exists>xs m'. dfs_preorder W [d] xs \<and>
         Resolve env d m =
           Some ((\<lparr>Package = Package d, Type = PkgType (W d), Constraints = Version (W d)\<rparr>,
                  m_acc m @ xs, None), m') \<and>
         hd xs = W d \<and> (\<forall>d'. (d, d') \<in> (dep_edges W D)\<^sup>* \<longrightarrow> W d' \<in> set xs))) \<and>
   Constraints depA = ''^1.0'' \<and> Version pkgA = ''1.2.0'' \<and> Digest pkgA = ''d1'' \<and>
   Dependencies pkgA = [depB] \<and>
   Constraints depB = ''^2.0'' \<and> Version pkgB = ''2.3.0'' \<and> Digest pkgB = ''d2'' \<and>
   Dependencies pkgB = [] \<and>
   map_option fst (Resolve (registry pkgA pkgB) depA (New Map.empty)) =
     Some (\<lparr>Package = ''A'', Type = PkgType pkgA, Constraints = ''1.2.0''\<rparr>, [pkgA, pkgB], None)"
proof -
  have "Constraints depA = ''^1.0''" "Version pkgA = ''1.2.0''" "Digest pkgA = ''d1''"
    "Dependencies pkgA = [depB]" "Constraints depB = ''^2.0''" "Version pkgB = ''2.3.0''"
    "Digest pkgB = ''d2''" "Dependencies pkgB = []"
    by (simp_all add: depA_def depB_def pkgA_def pkgB_def)
  moreover have "map_option fst (Resolve (registry pkgA pkgB) depA (New Map.empty)) =
     Some (\<lparr>Package = ''A'', Type = PkgType pkgA, Constraints = ''1.2.0''\<rparr>, [pkgA, pkgB], None)"
    by (simp add: scenario_AB)
  ultimately show ?thesis using Resolve_world [of env W I D m d] by blast
qed

theorem resolve_complete_preorder_witness:
  "world (registry pkgA pkgB) (served pkgA pkgB) (cache_faithful pkgA pkgB) {depA, depB} \<and>
   no_retrieval_errors (registry pkgA pkgB) (cache_faithful pkgA pkgB) {depA, depB} \<and>
   finite {depA, depB} \<and> acyclic (dep_edges (served pkgA pkgB) {depA, depB}) \<and>
   cache_faithful pkgA pkgB (m_c (New Map.empty)) \<and> depA \<in> {depA, depB} \<and>
   (depA, depB) \<in> (dep_edges (served pkgA pkgB) {depA, depB})\<^sup>* \<and>
   served pkgA pkgB depA = pkgA \<and> served pkgA pkgB depB = pkgB \<and>
   (\<exists>xs m'. dfs_preorder (served pkgA pkgB) [depA] xs \<and>
      Resolve (registry pkgA pkgB) depA (New Map.empty) =
        Some ((\<lparr>Package = ''A'', Type = PkgType pkgA, Constraints = Version pkgA\<rparr>, xs, None), m') \<and>
      hd xs = pkgA \<and> pkgB \<in> set xs)"
proof -
  let ?D = "{depA, depB}"
  let ?R = "registry pkgA pkgB"
  let ?W = "served pkgA pkgB"
  let ?m0 = "New Map.empty :: LocalCache Manager"
  have w: "world ?R ?W (cache_faithful pkgA pkgB) ?D"
    by (rule world_registry) (simp add: pkgA_def pkgB_def)
  have ne: "no_retrieval_errors ?R (cache_faithful pkgA pkgB) ?D" by (rule no_errors_registry)
  have fin: "finite ?D" by simp
  have i: "cache_faithful pkgA pkgB (m_c ?m0)" by (simp add: cache_faithful_def New_def)
  have dD: "depA \<in> ?D" by simp
  have ab: "(depA, depB) \<in> (dep_edges ?W ?D)\<^sup>*"
    by (rule r_into_rtrancl) (simp add: edges_acyclic_world)
  have sA: "?W depA = pkgA" and sB: "?W depB = pkgB"
    by (simp_all add: served_def depA_def depB_def)
  have pk: "Package depA = ''A''" and acc0: "m_acc ?m0 = []" by (simp_all add: depA_def New_def)
  from resolve_complete_preorder [of ?R ?W "cache_faithful pkgA pkgB" ?D ?m0 depA, THEN conjunct1]
    w ne fin acyclic_world i dD
  obtain xs m' where "dfs_preorder ?W [depA] xs"
    and "Resolve ?R depA ?m0 =
           Some ((\<lparr>Package = Package depA, Type = PkgType (?W depA), Constraints = Version (?W depA)\<rparr>,
                  m_acc ?m0 @ xs, None), m')"
    and "hd xs = ?W depA" and "\<forall>d'. (depA, d') \<in> (dep_edges ?W ?D)\<^sup>* \<longrightarrow> ?W d' \<in> set xs"
    by blast
  with ab have "dfs_preorder ?W [depA] xs \<and>
      Resolve ?R depA ?m0 =
        Some ((\<lparr>Package = ''A'', Type = PkgType pkgA, Constraints = Version pkgA\<rparr>, xs, None), m') \<and>
      hd xs = pkgA \<and> pkgB \<in> set xs"
    using sA sB pk acc0 by (metis append_Nil)
  then have ex: "\<exists>xs m'. dfs_preorder ?W [depA] xs \<and>
      Resolve ?R depA ?m0 =
        Some ((\<lparr>Package = ''A'', Type = PkgType pkgA, Constraints = Version pkgA\<rparr>, xs, None), m') \<and>
      hd xs = pkgA \<and> pkgB \<in> set xs" by blast
  show ?thesis
    by (intro conjI w ne fin acyclic_world i dD ab sA sB ex)
qed

section \<open>Resolving twice\<close>

lemma fresh_sub_refl: "fresh_sub env c c"
  by (simp add: fresh_sub_def)

lemma fresh_sub_trans: "fresh_sub env c1 c2 \<Longrightarrow> fresh_sub env c2 c3 \<Longrightarrow> fresh_sub env c1 c3"
  unfolding fresh_sub_def by blast

lemma fresh_subD:
  "fresh_sub env c c' \<Longrightarrow> Get env c k = Inr q \<Longrightarrow> ResolveDigest env k = Inr (Digest q) \<Longrightarrow>
   Get env c' k = Inr q"
  unfolding fresh_sub_def by blast

lemma addPkg_establishes:
  assumes contract: "cache_contract env" and consistent: "registry_consistent env"
    and add: "addPkg env k m = (Inr p, m1)"
    and stale: "\<And>q. Get env (m_c m) k = Inr q \<Longrightarrow> ResolveDigest env k \<noteq> Inr (Digest q)"
  shows "Get env (m_c m1) k = Inr p \<and> ResolveDigest env k = Inr (Digest p) \<and>
         fresh_sub env (m_c m) (m_c m1)"
proof -
  from add obtain t i c' where img: "ResolveImage env k = Inr (t, i)"
    and mar: "FromImage env (Package k) t i = Inr p"
    and sto: "Store env (m_c m) k p = (None, c')"
    and m1: "m_c m1 = c'"
    unfolding addPkg_Inr by auto
  from contract sto have g: "Get env c' k = Inr p"
    and other: "\<And>k'. k' \<noteq> k \<Longrightarrow> Get env c' k' = Get env (m_c m) k'"
    unfolding cache_contract_def by blast+
  have "fetched env k = Inr p" using img mar by (simp add: fetched_def)
  with consistent have dg: "ResolveDigest env k = Inr (Digest p)"
    unfolding registry_consistent_def by blast
  have "fresh_sub env (m_c m) c'"
    unfolding fresh_sub_def
  proof (intro allI impI)
    fix k' q assume h: "Get env (m_c m) k' = Inr q \<and> ResolveDigest env k' = Inr (Digest q)"
    with stale have "k' \<noteq> k" by blast
    with other h show "Get env c' k' = Inr q" by simp
  qed
  with g dg m1 show ?thesis by simp
qed

lemma retrievePkg_establishes:
  assumes contract: "cache_contract env" and consistent: "registry_consistent env"
    and ok: "retrievePkg env d m = (Inr p, m1)"
  shows "\<exists>v. ResolveTag env d = Inr v \<and> Get env (m_c m1) (d\<lparr>Constraints := v\<rparr>) = Inr p \<and>
           ResolveDigest env (d\<lparr>Constraints := v\<rparr>) = Inr (Digest p) \<and>
           fresh_sub env (m_c m) (m_c m1)"
proof -
  from ok obtain v where tag: "ResolveTag env d = Inr v"
    by (cases "ResolveTag env d") (auto simp: retrievePkg_tag_fail)
  let ?d = "d\<lparr>Constraints := v\<rparr>"
  have "Get env (m_c m1) ?d = Inr p \<and> ResolveDigest env ?d = Inr (Digest p) \<and>
        fresh_sub env (m_c m) (m_c m1)"
  proof (cases "Get env (m_c m) ?d")
    case (Inl e)
    with tag ok have ne: "IsNotExist e"
      by (auto simp: retrievePkg_def finalizeDepVersion_def logcall_def Let_def split: if_splits)
    let ?m = "logcall (CallGet ?d) (logcall (CallResolveTag d) m)"
    from retrievePkg_miss [OF tag Inl ne] ok have add: "addPkg env ?d ?m = (Inr p, m1)" by simp
    have "Get env (m_c ?m) ?d = Inr q \<Longrightarrow> ResolveDigest env ?d \<noteq> Inr (Digest q)" for q
      using Inl by (simp add: logcall_def)
    from addPkg_establishes [OF contract consistent add this]
    show ?thesis by (simp add: logcall_def)
  next
    case hit: (Inr q)
    from tag hit ok obtain g where dg: "ResolveDigest env ?d = Inr g"
      by (cases "ResolveDigest env ?d")
         (auto simp: retrievePkg_def finalizeDepVersion_def logcall_def Let_def)
    show ?thesis
    proof (cases "g = Digest q")
      case True
      with retrievePkg_hit_fresh [OF tag hit] dg ok hit show ?thesis
        by (auto simp: fresh_sub_refl)
    next
      case False
      let ?m = "logcall (CallResolveDigest ?d) (logcall (CallGet ?d) (logcall (CallResolveTag d) m))"
      from retrievePkg_hit_stale [OF tag hit dg False] ok
      have add: "addPkg env ?d ?m = (Inr p, m1)" by simp
      have "Get env (m_c ?m) ?d = Inr q' \<Longrightarrow> ResolveDigest env ?d \<noteq> Inr (Digest q')" for q'
        using hit dg False by (auto simp: logcall_def)
      from addPkg_establishes [OF contract consistent add this]
      show ?thesis by (simp add: logcall_def)
    qed
  qed
  with tag show ?thesis by blast
qed

lemma run_replay:
  assumes contract: "cache_contract env" and consistent: "registry_consistent env"
  shows "run env ds m r \<Longrightarrow> fst r = None \<Longrightarrow>
         \<exists>xs. m_acc (snd r) = m_acc m @ xs \<and> fresh_sub env (m_c m) (m_c (snd r)) \<and>
           (\<forall>t. fresh_sub env (m_c (snd r)) (m_c t) \<longrightarrow>
              (\<exists>t' evs. run env ds t (None, t') \<and> m_c t' = m_c t \<and> m_acc t' = m_acc t @ xs \<and>
                 m_calls t' = m_calls t @ evs \<and> (\<forall>ev \<in> set evs. \<not> is_fetch ev)))"
proof (induction rule: run.induct)
  case (run_Nil m)
  show ?case by (auto simp: fresh_sub_refl intro: run.run_Nil)
next
  case (run_fail d m err m1 ds)
  then show ?case by simp
next
  case (run_deep d m e m1 err m3 ds)
  then show ?case by simp
next
  case (run_next d m e m1 m3 ds r)
  let ?m2 = "m1\<lparr>m_acc := m_acc m1 @ [e]\<rparr>"
  obtain m' where r: "r = (None, m')" using run_next.prems by (cases r) auto
  from retrievePkg_establishes [OF contract consistent run_next.hyps(1)]
  obtain v where tag: "ResolveTag env d = Inr v"
    and g1: "Get env (m_c m1) (d\<lparr>Constraints := v\<rparr>) = Inr e"
    and dg: "ResolveDigest env (d\<lparr>Constraints := v\<rparr>) = Inr (Digest e)"
    and f01: "fresh_sub env (m_c m) (m_c m1)" by blast
  let ?d = "d\<lparr>Constraints := v\<rparr>"
  have a1: "m_acc m1 = m_acc m" using run_next.hyps(1) by (rule retrievePkg_acc)
  from run_next.IH(1) obtain xs1 where
    acc3: "m_acc m3 = m_acc ?m2 @ xs1"
    and f13: "fresh_sub env (m_c m1) (m_c m3)"
    and rep1: "\<And>t. fresh_sub env (m_c m3) (m_c t) \<Longrightarrow>
              \<exists>t' evs. run env (Dependencies e) t (None, t') \<and> m_c t' = m_c t \<and>
                 m_acc t' = m_acc t @ xs1 \<and>
                 m_calls t' = m_calls t @ evs \<and> (\<forall>ev \<in> set evs. \<not> is_fetch ev)"
    by auto
  from run_next.IH(2) r obtain xs2 where
    acc': "m_acc m' = m_acc m3 @ xs2"
    and f3': "fresh_sub env (m_c m3) (m_c m')"
    and rep2: "\<And>t. fresh_sub env (m_c m') (m_c t) \<Longrightarrow>
              \<exists>t' evs. run env ds t (None, t') \<and> m_c t' = m_c t \<and>
                 m_acc t' = m_acc t @ xs2 \<and>
                 m_calls t' = m_calls t @ evs \<and> (\<forall>ev \<in> set evs. \<not> is_fetch ev)"
    by auto
  have f1': "fresh_sub env (m_c m1) (m_c m')" using f13 f3' by (rule fresh_sub_trans)
  have acc: "m_acc m' = m_acc m @ (e # xs1 @ xs2)" using acc' acc3 a1 by simp
  have f0': "fresh_sub env (m_c m) (m_c m')" using f01 f1' by (rule fresh_sub_trans)
  have replay: "\<exists>t' evs. run env (d # ds) t (None, t') \<and> m_c t' = m_c t \<and>
                 m_acc t' = m_acc t @ (e # xs1 @ xs2) \<and>
                 m_calls t' = m_calls t @ evs \<and> (\<forall>ev \<in> set evs. \<not> is_fetch ev)"
    if ft: "fresh_sub env (m_c m') (m_c t)" for t
  proof -
    have f1t: "fresh_sub env (m_c m1) (m_c t)" using f1' ft by (rule fresh_sub_trans)
    have gt: "Get env (m_c t) ?d = Inr e" using fresh_subD [OF f1t g1 dg] .
    let ?ev0 = "[CallResolveTag d, CallGet ?d, CallResolveDigest ?d]"
    let ?t1 = "t\<lparr>m_calls := m_calls t @ ?ev0\<rparr>"
    have rp: "retrievePkg env d t = (Inr e, ?t1)"
      using tag gt dg by (rule retrievePkg_hit_fresh)
    let ?t2 = "?t1\<lparr>m_acc := m_acc ?t1 @ [e]\<rparr>"
    have "fresh_sub env (m_c m3) (m_c ?t2)"
      using fresh_sub_trans [OF f3' ft] by simp
    from rep1 [OF this] obtain t3 evs1 where
      r1: "run env (Dependencies e) ?t2 (None, t3)" and c3: "m_c t3 = m_c ?t2"
      and a3: "m_acc t3 = m_acc ?t2 @ xs1"
      and l3: "m_calls t3 = m_calls ?t2 @ evs1" and n1: "\<forall>ev \<in> set evs1. \<not> is_fetch ev"
      by blast
    have "fresh_sub env (m_c m') (m_c t3)" using ft c3 by simp
    from rep2 [OF this] obtain t' evs2 where
      r2: "run env ds t3 (None, t')" and c': "m_c t' = m_c t3"
      and a': "m_acc t' = m_acc t3 @ xs2"
      and l': "m_calls t' = m_calls t3 @ evs2" and n2: "\<forall>ev \<in> set evs2. \<not> is_fetch ev"
      by blast
    have "run env (d # ds) t (None, t')" using rp r1 r2 by (rule run.run_next)
    moreover have "m_c t' = m_c t" using c' c3 by simp
    moreover have "m_acc t' = m_acc t @ (e # xs1 @ xs2)" using a' a3 by simp
    moreover have "m_calls t' = m_calls t @ (?ev0 @ evs1 @ evs2)" using l' l3 by simp
    moreover have "\<forall>ev \<in> set (?ev0 @ evs1 @ evs2). \<not> is_fetch ev" using n1 n2 by auto
    ultimately show ?thesis by blast
  qed
  show ?case using acc f0' replay unfolding r by (intro exI [of _ "e # xs1 @ xs2"]) simp
qed

text \<open>
  Claim C4. The cache meets its contract, the registry is consistent and is the same
  for both calls (the collaborators \<open>env\<close> are fixed), and a first \<^verbatim>\<open>Resolve\<close>
  retrieves its root and returns without error the identity \<open>ud\<close> and the
  accumulator \<open>ps\<close>, which is the old accumulator followed by the packages \<open>xs\<close>.
  Then a second \<^verbatim>\<open>Resolve\<close> of the same dependency on the Manager as the first call
  left it returns the same identity \<open>ud\<close> and no error; it appends the very same
  packages \<open>xs\<close> once more (the accumulator is not reset, so it returns \<open>ps @ xs\<close>);
  it leaves the cache as it was; and none of the calls it makes is a fetch, a
  marshaling or a store.
\<close>

theorem resolve_idempotent:
  assumes contract: "cache_contract env" and consistent: "registry_consistent env"
    and root: "retrievePkg env d m = (Inr e, m0)"
    and first: "Resolve env d m = Some ((ud, ps, None), m1)"
  shows "\<exists>xs evs m2. ps = m_acc m @ xs \<and>
           Resolve env d m1 = Some ((ud, ps @ xs, None), m2) \<and>
           m_c m2 = m_c m1 \<and> m_acc m2 = ps @ xs \<and>
           m_calls m2 = m_calls m1 @ evs \<and> (\<forall>ev \<in> set evs. \<not> is_fetch ev)"
proof -
  let ?m2 = "m0\<lparr>m_acc := m_acc m0 @ [e]\<rparr>"
  let ?ud = "zero_Dependency\<lparr>Type := PkgType e, Package := Package d, Constraints := Version e\<rparr>"
  from first root have ra: "resolveAllDeps env e ?m2 = Some (None, m1)"
    and ud: "ud = ?ud" and ps: "ps = m_acc m1"
    by (auto simp: Resolve_def Let_def split: option.splits prod.splits)
  then have r: "run env (Dependencies e) ?m2 (None, m1)"
    by (simp add: resolveAllDeps_loop_eq loop_eq_Some_iff)
  have a0: "m_acc m0 = m_acc m" using root by (rule retrievePkg_acc)
  from retrievePkg_establishes [OF contract consistent root]
  obtain v where tag: "ResolveTag env d = Inr v"
    and g0: "Get env (m_c m0) (d\<lparr>Constraints := v\<rparr>) = Inr e"
    and dg: "ResolveDigest env (d\<lparr>Constraints := v\<rparr>) = Inr (Digest e)" by blast
  let ?d = "d\<lparr>Constraints := v\<rparr>"
  from run_replay [OF contract consistent r] obtain xs1 where
    acc1: "m_acc m1 = m_acc ?m2 @ xs1"
    and f01: "fresh_sub env (m_c ?m2) (m_c m1)"
    and rep: "\<And>t. fresh_sub env (m_c m1) (m_c t) \<Longrightarrow>
              \<exists>t' evs. run env (Dependencies e) t (None, t') \<and> m_c t' = m_c t \<and>
                 m_acc t' = m_acc t @ xs1 \<and>
                 m_calls t' = m_calls t @ evs \<and> (\<forall>ev \<in> set evs. \<not> is_fetch ev)"
    by auto
  have g1: "Get env (m_c m1) ?d = Inr e" using fresh_subD [OF f01 _ dg] g0 by simp
  let ?ev0 = "[CallResolveTag d, CallGet ?d, CallResolveDigest ?d]"
  let ?t1 = "m1\<lparr>m_calls := m_calls m1 @ ?ev0\<rparr>"
  have rp: "retrievePkg env d m1 = (Inr e, ?t1)"
    using tag g1 dg by (rule retrievePkg_hit_fresh)
  let ?t2 = "?t1\<lparr>m_acc := m_acc ?t1 @ [e]\<rparr>"
  have "fresh_sub env (m_c m1) (m_c ?t2)" by (simp add: fresh_sub_refl)
  from rep [OF this] obtain t' evs1 where
    r1: "run env (Dependencies e) ?t2 (None, t')" and c': "m_c t' = m_c ?t2"
    and a': "m_acc t' = m_acc ?t2 @ xs1"
    and l': "m_calls t' = m_calls ?t2 @ evs1" and n1: "\<forall>ev \<in> set evs1. \<not> is_fetch ev"
    by blast
  from r1 have "resolveAllDeps env e ?t2 = Some (None, t')"
    by (simp add: resolveAllDeps_loop_eq run_imp_loop)
  with rp have second: "Resolve env d m1 = Some ((?ud, m_acc t', None), t')"
    by (simp add: Resolve_def)
  have 1: "ps = m_acc m @ (e # xs1)" using ps acc1 a0 by simp
  have 2: "m_acc t' = ps @ (e # xs1)" using a' ps by simp
  have 3: "m_calls t' = m_calls m1 @ (?ev0 @ evs1)" using l' by simp
  have 4: "\<forall>ev \<in> set (?ev0 @ evs1). \<not> is_fetch ev" using n1 by auto
  have 5: "m_c t' = m_c m1" using c' by simp
  from second 1 2 3 4 5 ud show ?thesis by metis
qed

theorem resolve_idempotent_witness:
  "cache_contract (registry pkgA pkgB) \<and> registry_consistent (registry pkgA pkgB) \<and>
   fst (retrievePkg (registry pkgA pkgB) depA (New Map.empty)) = Inr pkgA \<and>
   (\<exists>m1 m2 evs.
      Resolve (registry pkgA pkgB) depA (New Map.empty) =
        Some ((\<lparr>Package = ''A'', Type = PkgType pkgA, Constraints = ''1.2.0''\<rparr>,
               [pkgA, pkgB], None), m1) \<and>
      Resolve (registry pkgA pkgB) depA m1 =
        Some ((\<lparr>Package = ''A'', Type = PkgType pkgA, Constraints = ''1.2.0''\<rparr>,
               [pkgA, pkgB, pkgA, pkgB], None), m2) \<and>
      m_c m2 = m_c m1 \<and> m_calls m2 = m_calls m1 @ evs \<and> (\<forall>ev \<in> set evs. \<not> is_fetch ev))"
proof -
  let ?R = "registry pkgA pkgB"
  let ?m0 = "New Map.empty :: LocalCache Manager"
  let ?ud = "\<lparr>Package = ''A'', Type = PkgType pkgA, Constraints = ''1.2.0''\<rparr>"
  let ?mA = "\<lparr>m_c = [finA \<mapsto> pkgA], m_acc = [],
              m_calls = [CallResolveTag depA, CallGet finA, CallResolveImage finA,
                         CallFromImage ''A'' ''1.2.0'' ''imgA'', CallStore finA pkgA]\<rparr>"
  let ?m1 = "\<lparr>m_c = [finA \<mapsto> pkgA, finB \<mapsto> pkgB], m_acc = [pkgA, pkgB],
        m_calls = [CallResolveTag depA, CallGet finA,
                   CallResolveImage finA, CallFromImage ''A'' ''1.2.0'' ''imgA'', CallStore finA pkgA,
                   CallResolveTag depB, CallGet finB, CallResolveImage finB,
                   CallFromImage ''B'' ''2.3.0'' ''imgB'', CallStore finB pkgB]\<rparr>"
  have cc: "cache_contract ?R" by (rule cache_contract_registry)
  have rc: "registry_consistent ?R" by (rule registry_consistent_registry)
  have root: "retrievePkg ?R depA ?m0 = (Inr pkgA, ?mA)" by (simp add: model_defs world_defs)
  have first: "Resolve ?R depA ?m0 = Some ((?ud, [pkgA, pkgB], None), ?m1)" by (rule scenario_AB)
  from resolve_idempotent [OF cc rc root first]
  obtain xs evs m2 where xs: "[pkgA, pkgB] = m_acc ?m0 @ xs"
    and second: "Resolve ?R depA ?m1 = Some ((?ud, [pkgA, pkgB] @ xs, None), m2)"
    and c: "m_c m2 = m_c ?m1" and l: "m_calls m2 = m_calls ?m1 @ evs"
    and n: "\<forall>ev \<in> set evs. \<not> is_fetch ev" by blast
  from xs have "xs = [pkgA, pkgB]" by (simp add: New_def)
  with second have "Resolve ?R depA ?m1 = Some ((?ud, [pkgA, pkgB, pkgA, pkgB], None), m2)" by simp
  with first c l n have "\<exists>m1 m2 evs.
      Resolve ?R depA ?m0 = Some ((?ud, [pkgA, pkgB], None), m1) \<and>
      Resolve ?R depA m1 = Some ((?ud, [pkgA, pkgB, pkgA, pkgB], None), m2) \<and>
      m_c m2 = m_c m1 \<and> m_calls m2 = m_calls m1 @ evs \<and> (\<forall>ev \<in> set evs. \<not> is_fetch ev)"
    by blast
  moreover have "fst (retrievePkg ?R depA ?m0) = Inr pkgA" using root by simp
  ultimately show ?thesis using cc rc by blast
qed

section \<open>Freshness of what Resolve returns\<close>

lemma checked_mono: "checked env evs k p \<Longrightarrow> set evs \<subseteq> set evs' \<Longrightarrow> checked env evs' k p"
  unfolding checked_def by blast

lemma retrievePkg_calls: "retrievePkg env d m = (r, m1) \<Longrightarrow> \<exists>evs. m_calls m1 = m_calls m @ evs"
  by (auto simp: model_defs split: sum.splits prod.splits if_splits option.splits)

lemma retrievePkg_checked:
  assumes consistent: "registry_consistent env"
    and ok: "retrievePkg env d m = (Inr p, m1)"
  shows "\<exists>v evs. ResolveTag env d = Inr v \<and> m_calls m1 = m_calls m @ evs \<and>
           checked env evs (d\<lparr>Constraints := v\<rparr>) p"
proof -
  from ok obtain v where tag: "ResolveTag env d = Inr v"
    by (cases "ResolveTag env d") (auto simp: retrievePkg_tag_fail)
  let ?d = "d\<lparr>Constraints := v\<rparr>"
  have fetch: "\<exists>evs. m_calls m1 = m_calls m @ evs \<and> checked env evs ?d p"
    if add: "addPkg env ?d m0 = (Inr p, m1)" and pre: "m_calls m0 = m_calls m @ evs0"
      and get: "CallGet ?d \<in> set evs0" for m0 evs0
  proof -
    from add obtain t i where img: "ResolveImage env ?d = Inr (t, i)"
      and mar: "FromImage env (Package ?d) t i = Inr p"
      and calls: "m_calls m1 = m_calls m0 @
            [CallResolveImage ?d, CallFromImage (Package ?d) t i, CallStore ?d p]"
      unfolding addPkg_Inr by auto
    have "fetched env ?d = Inr p" using img mar by (simp add: fetched_def)
    with consistent have "ResolveDigest env ?d = Inr (Digest p)"
      unfolding registry_consistent_def by blast
    with calls pre get show ?thesis
      by (intro exI [of _ "evs0 @ [CallResolveImage ?d, CallFromImage (Package ?d) t i, CallStore ?d p]"])
         (simp add: checked_def)
  qed
  have "\<exists>evs. m_calls m1 = m_calls m @ evs \<and> checked env evs ?d p"
  proof (cases "Get env (m_c m) ?d")
    case (Inl e)
    with tag ok have ne: "IsNotExist e"
      by (auto simp: retrievePkg_def finalizeDepVersion_def logcall_def Let_def split: if_splits)
    let ?m = "logcall (CallGet ?d) (logcall (CallResolveTag d) m)"
    from retrievePkg_miss [OF tag Inl ne] ok have add: "addPkg env ?d ?m = (Inr p, m1)" by simp
    show ?thesis
      by (rule fetch [OF add, of "[CallResolveTag d, CallGet ?d]"]) (simp_all add: logcall_def)
  next
    case hit: (Inr q)
    from tag hit ok obtain g where dg: "ResolveDigest env ?d = Inr g"
      by (cases "ResolveDigest env ?d")
         (auto simp: retrievePkg_def finalizeDepVersion_def logcall_def Let_def)
    show ?thesis
    proof (cases "g = Digest q")
      case True
      with retrievePkg_hit_fresh [OF tag hit] dg ok
      have "p = q" and "m_calls m1 = m_calls m @ [CallResolveTag d, CallGet ?d, CallResolveDigest ?d]"
        by auto
      with dg True show ?thesis by (simp add: checked_def)
    next
      case False
      let ?m = "logcall (CallResolveDigest ?d) (logcall (CallGet ?d) (logcall (CallResolveTag d) m))"
      from retrievePkg_hit_stale [OF tag hit dg False] ok
      have add: "addPkg env ?d ?m = (Inr p, m1)" by simp
      show ?thesis
        by (rule fetch [OF add, of "[CallResolveTag d, CallGet ?d, CallResolveDigest ?d]"])
           (simp_all add: logcall_def)
    qed
  qed
  with tag show ?thesis by blast
qed

lemma list_all2_checked_mono:
  "list_all2 (checked env evs) ks xs \<Longrightarrow> set evs \<subseteq> set evs' \<Longrightarrow>
   list_all2 (checked env evs') ks xs"
  by (erule list_all2_mono) (rule checked_mono)

lemma run_checked:
  assumes consistent: "registry_consistent env"
  shows "run env ds m r \<Longrightarrow>
         \<exists>xs ks evs. m_acc (snd r) = m_acc m @ xs \<and> m_calls (snd r) = m_calls m @ evs \<and>
           list_all2 (checked env evs) ks xs"
proof (induction rule: run.induct)
  case (run_Nil m)
  show ?case by simp
next
  case (run_fail d m err m1 ds)
  from retrievePkg_calls [OF run_fail.hyps] retrievePkg_acc [OF run_fail.hyps]
  show ?case by auto
next
  case (run_deep d m e m1 err m3 ds)
  from retrievePkg_checked [OF consistent run_deep.hyps(1)]
  obtain v evs0 where c0: "m_calls m1 = m_calls m @ evs0"
    and k0: "checked env evs0 (d\<lparr>Constraints := v\<rparr>) e" by blast
  have a1: "m_acc m1 = m_acc m" using run_deep.hyps(1) by (rule retrievePkg_acc)
  from run_deep.IH obtain xs1 ks1 evs1 where
    a3: "m_acc m3 = m_acc m1 @ [e] @ xs1" and c3: "m_calls m3 = m_calls m1 @ evs1"
    and l1: "list_all2 (checked env evs1) ks1 xs1" by auto
  have "list_all2 (checked env (evs0 @ evs1)) (d\<lparr>Constraints := v\<rparr> # ks1) (e # xs1)"
    using checked_mono [OF k0, of "evs0 @ evs1"] list_all2_checked_mono [OF l1, of "evs0 @ evs1"]
    by auto
  moreover have "m_acc m3 = m_acc m @ (e # xs1)" using a3 a1 by simp
  moreover have "m_calls m3 = m_calls m @ (evs0 @ evs1)" using c3 c0 by simp
  ultimately show ?case by (metis snd_conv)
next
  case (run_next d m e m1 m3 ds r)
  from retrievePkg_checked [OF consistent run_next.hyps(1)]
  obtain v evs0 where c0: "m_calls m1 = m_calls m @ evs0"
    and k0: "checked env evs0 (d\<lparr>Constraints := v\<rparr>) e" by blast
  have a1: "m_acc m1 = m_acc m" using run_next.hyps(1) by (rule retrievePkg_acc)
  from run_next.IH(1) obtain xs1 ks1 evs1 where
    a3: "m_acc m3 = m_acc m1 @ [e] @ xs1" and c3: "m_calls m3 = m_calls m1 @ evs1"
    and l1: "list_all2 (checked env evs1) ks1 xs1" by auto
  from run_next.IH(2) obtain xs2 ks2 evs2 where
    a': "m_acc (snd r) = m_acc m3 @ xs2" and c': "m_calls (snd r) = m_calls m3 @ evs2"
    and l2: "list_all2 (checked env evs2) ks2 xs2" by auto
  let ?evs = "evs0 @ evs1 @ evs2"
  have "list_all2 (checked env ?evs) (d\<lparr>Constraints := v\<rparr> # ks1) (e # xs1)"
    using checked_mono [OF k0, of ?evs] list_all2_checked_mono [OF l1, of ?evs] by auto
  moreover have "list_all2 (checked env ?evs) ks2 xs2"
    using list_all2_checked_mono [OF l2, of ?evs] by auto
  ultimately have "list_all2 (checked env ?evs) ((d\<lparr>Constraints := v\<rparr> # ks1) @ ks2) ((e # xs1) @ xs2)"
    by (rule list_all2_appendI)
  moreover have "m_acc (snd r) = m_acc m @ ((e # xs1) @ xs2)" using a' a3 a1 by simp
  moreover have "m_calls (snd r) = m_calls m @ ?evs" using c' c3 c0 by simp
  ultimately show ?case by blast
qed

lemma Resolve_checked:
  assumes consistent: "registry_consistent env"
    and res: "Resolve env d m = Some ((ud, ps, err), m')"
  shows "\<exists>xs ks evs. ps = m_acc m @ xs \<and> m_calls m' = m_calls m @ evs \<and>
           list_all2 (checked env evs) ks xs"
proof -
  obtain x m1 where rp: "retrievePkg env d m = (x, m1)" by (cases "retrievePkg env d m")
  have a1: "m_acc m1 = m_acc m" using rp by (rule retrievePkg_acc)
  show ?thesis
  proof (cases x)
    case (Inl e)
    with res rp have "ps = m_acc m1" "m' = m1" by (auto simp: Resolve_def)
    with a1 retrievePkg_calls [OF rp] show ?thesis by auto
  next
    case (Inr e)
    let ?m2 = "m1\<lparr>m_acc := m_acc m1 @ [e]\<rparr>"
    from res rp Inr obtain r3 where r3: "resolveAllDeps env e ?m2 = Some (r3, m')"
      and ps: "ps = m_acc m'"
      by (auto simp: Resolve_def Let_def split: option.splits)
    then have "run env (Dependencies e) ?m2 (r3, m')"
      by (simp add: resolveAllDeps_loop_eq loop_eq_Some_iff)
    from run_checked [OF consistent this] obtain xs1 ks1 evs1 where
      a3: "m_acc m' = m_acc ?m2 @ xs1" and c3: "m_calls m' = m_calls ?m2 @ evs1"
      and l1: "list_all2 (checked env evs1) ks1 xs1" by auto
    from retrievePkg_checked [OF consistent rp [unfolded Inr]]
    obtain v evs0 where c0: "m_calls m1 = m_calls m @ evs0"
      and k0: "checked env evs0 (d\<lparr>Constraints := v\<rparr>) e" by blast
    have "list_all2 (checked env (evs0 @ evs1)) (d\<lparr>Constraints := v\<rparr> # ks1) (e # xs1)"
      using checked_mono [OF k0, of "evs0 @ evs1"] list_all2_checked_mono [OF l1, of "evs0 @ evs1"]
      by auto
    moreover have "ps = m_acc m @ (e # xs1)" using ps a3 a1 by simp
    moreover have "m_calls m' = m_calls m @ (evs0 @ evs1)" using c3 c0 by simp
    ultimately show ?thesis by blast
  qed
qed


lemma stale_first_call:
  "Resolve (registry pkgA_old pkgB) depA (New Map.empty) =
     Some ((\<lparr>Package = ''A'', Type = ''Configuration'', Constraints = ''1.2.0''\<rparr>,
            [pkgA_old, pkgB], None), stale_Manager)"
  by (simp add: Resolve_def resolveAllDeps_loop_eq loop_Cons loop_Nil zero_Dependency_def
        model_defs world_defs stale_Manager_def)

lemma stale_second_call:
  "Resolve (registry pkgA pkgB) depA stale_Manager =
     Some ((\<lparr>Package = ''A'', Type = ''Configuration'', Constraints = ''1.2.0''\<rparr>,
            [pkgA_old, pkgB, pkgA, pkgB], None),
       \<lparr>m_c = [finB \<mapsto> pkgB, finA \<mapsto> pkgA], m_acc = [pkgA_old, pkgB, pkgA, pkgB],
        m_calls = m_calls stale_Manager @
                  [CallResolveTag depA, CallGet finA, CallResolveDigest finA, CallResolveImage finA,
                   CallFromImage ''A'' ''1.2.0'' ''imgA'', CallStore finA pkgA,
                   CallResolveTag depB, CallGet finB, CallResolveDigest finB]\<rparr>)"
  by (simp add: Resolve_def resolveAllDeps_loop_eq loop_Cons loop_Nil zero_Dependency_def
        model_defs world_defs stale_Manager_def)

text \<open>
  The accumulator that \<^verbatim>\<open>Resolve\<close> returns is \<^verbatim>\<open>m.acc\<close>, which is never reset. A
  first \<^verbatim>\<open>Resolve\<close> of \<open>A\<close> is made while the registry serves the older content of
  \<open>A\<close> (digest \<open>d0\<close>); it leaves that package in the cache and in the accumulator.
  The registry then serves the new content (digest \<open>d1\<close>) under the same tag. A
  second \<^verbatim>\<open>Resolve\<close> of \<open>A\<close> on the same Manager finds the identity in the cache,
  sees the digests differ and fetches the new package, but the accumulator it returns
  still contains the old package, whose digest is not the registry's current digest
  for that identity.
\<close>

theorem Resolve_returns_stale_counterexample:
  "registry_consistent (registry pkgA pkgB) \<and> cache_contract (registry pkgA pkgB) \<and>
   Resolve (registry pkgA_old pkgB) depA (New Map.empty) =
     Some ((\<lparr>Package = ''A'', Type = ''Configuration'', Constraints = ''1.2.0''\<rparr>,
            [pkgA_old, pkgB], None), stale_Manager) \<and>
   Get (registry pkgA pkgB) (m_c stale_Manager) finA = Inr pkgA_old \<and>
   ResolveDigest (registry pkgA pkgB) finA = Inr ''d1'' \<and>
   map_option fst (Resolve (registry pkgA pkgB) depA stale_Manager) =
     Some (\<lparr>Package = ''A'', Type = ''Configuration'', Constraints = ''1.2.0''\<rparr>,
           [pkgA_old, pkgB, pkgA, pkgB], None) \<and>
   pkgA_old \<in> set [pkgA_old, pkgB, pkgA, pkgB] \<and>
   Digest pkgA_old = ''d0'' \<and> Digest pkgA_old \<noteq> ''d1''"
proof -
  have "Get (registry pkgA pkgB) (m_c stale_Manager) finA = Inr pkgA_old"
    by (simp add: world_defs stale_Manager_def)
  moreover have "ResolveDigest (registry pkgA pkgB) finA = Inr ''d1''"
    by (simp add: world_defs)
  moreover have "Digest pkgA_old = ''d0''" "Digest pkgA_old \<noteq> ''d1''"
    by (simp_all add: pkgA_old_def)
  moreover have "map_option fst (Resolve (registry pkgA pkgB) depA stale_Manager) =
     Some (\<lparr>Package = ''A'', Type = ''Configuration'', Constraints = ''1.2.0''\<rparr>,
           [pkgA_old, pkgB, pkgA, pkgB], None)"
    by (simp add: stale_second_call)
  ultimately show ?thesis
    using registry_consistent_registry [of pkgA pkgB] cache_contract_registry [of pkgA pkgB]
      stale_first_call by simp
qed

text \<open>
  Claim C2, amended. For a consistent registry, whenever \<^verbatim>\<open>Resolve\<close> returns (with
  or without an error), the accumulator it returns is the accumulator of the Manager
  before the call followed by the packages \<open>xs\<close> retrieved in this call, and each of
  these belongs to an identity that was looked up in the cache during the call, has
  the digest that the registry reports for that identity, and was either verified by
  a \<^verbatim>\<open>ResolveDigest\<close> call or stored after a fetch. The package retrieved for the root
  is the first of them. For every retrieval whose finalized identity is present in the
  cache, \<^verbatim>\<open>ResolveDigest\<close> is called in that retrieval, the cached package is returned
  only when its digest is the registry's, otherwise the fetched package is returned,
  and in both cases the digest of the returned package is the registry's. Nothing is
  said about the packages that earlier calls left in the accumulator.
\<close>

theorem Resolve_retrieves_fresh:
  assumes consistent: "registry_consistent env"
    and res: "Resolve env d m = Some ((ud, ps, err), m')"
  shows "(\<exists>xs ks evs. ps = m_acc m @ xs \<and> m_calls m' = m_calls m @ evs \<and>
            list_all2 (checked env evs) ks xs) \<and>
         (\<forall>p m1. retrievePkg env d m = (Inr p, m1) \<longrightarrow> prefix (m_acc m @ [p]) ps) \<and>
         (\<forall>d0 m0 v q p m1.
            ResolveTag env d0 = Inr v \<longrightarrow> Get env (m_c m0) (d0\<lparr>Constraints := v\<rparr>) = Inr q \<longrightarrow>
            retrievePkg env d0 m0 = (Inr p, m1) \<longrightarrow>
              (\<exists>g. ResolveDigest env (d0\<lparr>Constraints := v\<rparr>) = Inr g \<and>
                 CallResolveDigest (d0\<lparr>Constraints := v\<rparr>) \<in>
                   set (drop (length (m_calls m0)) (m_calls m1)) \<and>
                 (Digest q = g \<longrightarrow> p = q \<and> m_c m1 = m_c m0) \<and>
                 (Digest q \<noteq> g \<longrightarrow> fetched env (d0\<lparr>Constraints := v\<rparr>) = Inr p) \<and>
                 Digest p = g))"
proof (intro conjI allI impI)
  show "\<exists>xs ks evs. ps = m_acc m @ xs \<and> m_calls m' = m_calls m @ evs \<and>
            list_all2 (checked env evs) ks xs"
    using consistent res by (rule Resolve_checked)
next
  fix p m1 assume "retrievePkg env d m = (Inr p, m1)"
  with res show "prefix (m_acc m @ [p]) ps" by (rule Resolve_acc(3))
next
  fix d0 :: Dependency and m0 :: "'a Manager" and v q p m1
  assume "ResolveTag env d0 = Inr v" "Get env (m_c m0) (d0\<lparr>Constraints := v\<rparr>) = Inr q"
    "retrievePkg env d0 m0 = (Inr p, m1)"
  from retrievePkg_hit_verified [OF this] consistent
  show "\<exists>g. ResolveDigest env (d0\<lparr>Constraints := v\<rparr>) = Inr g \<and>
                 CallResolveDigest (d0\<lparr>Constraints := v\<rparr>) \<in>
                   set (drop (length (m_calls m0)) (m_calls m1)) \<and>
                 (Digest q = g \<longrightarrow> p = q \<and> m_c m1 = m_c m0) \<and>
                 (Digest q \<noteq> g \<longrightarrow> fetched env (d0\<lparr>Constraints := v\<rparr>) = Inr p) \<and>
                 Digest p = g"
    by blast
qed

theorem Resolve_retrieves_fresh_witness:
  "registry_consistent (registry pkgA pkgB) \<and>
   map_option fst (Resolve (registry pkgA pkgB) depA stale_Manager) =
     Some (\<lparr>Package = ''A'', Type = ''Configuration'', Constraints = ''1.2.0''\<rparr>,
           [pkgA_old, pkgB, pkgA, pkgB], None) \<and>
   m_acc stale_Manager = [pkgA_old, pkgB] \<and>
   (\<exists>ks evs. list_all2 (checked (registry pkgA pkgB) evs) ks [pkgA, pkgB]) \<and>
   ResolveTag (registry pkgA pkgB) depA = Inr ''1.2.0'' \<and>
   Get (registry pkgA pkgB) (m_c stale_Manager) finA = Inr pkgA_old \<and>
   fst (retrievePkg (registry pkgA pkgB) depA stale_Manager) = Inr pkgA \<and>
   prefix ([pkgA_old, pkgB] @ [pkgA]) [pkgA_old, pkgB, pkgA, pkgB] \<and>
   ResolveDigest (registry pkgA pkgB) finA = Inr ''d1'' \<and> Digest pkgA_old \<noteq> ''d1'' \<and>
   fetched (registry pkgA pkgB) finA = Inr pkgA \<and> Digest pkgA = ''d1''"
proof -
  let ?R = "registry pkgA pkgB"
  let ?m1 = "\<lparr>m_c = [finB \<mapsto> pkgB, finA \<mapsto> pkgA], m_acc = [pkgA_old, pkgB],
        m_calls = m_calls stale_Manager @
                  [CallResolveTag depA, CallGet finA, CallResolveDigest finA, CallResolveImage finA,
                   CallFromImage ''A'' ''1.2.0'' ''imgA'', CallStore finA pkgA]\<rparr>"
  have fin: "depA\<lparr>Constraints := ''1.2.0''\<rparr> = finA" by (simp add: finA_def)
  have rc: "registry_consistent ?R" by (rule registry_consistent_registry)
  have acc: "m_acc stale_Manager = [pkgA_old, pkgB]" by (simp add: stale_Manager_def)
  have tag: "ResolveTag ?R depA = Inr ''1.2.0''" by (simp add: world_defs)
  have hit: "Get ?R (m_c stale_Manager) (depA\<lparr>Constraints := ''1.2.0''\<rparr>) = Inr pkgA_old"
    by (simp add: world_defs stale_Manager_def)
  have rp: "retrievePkg ?R depA stale_Manager = (Inr pkgA, ?m1)"
    by (simp add: model_defs world_defs stale_Manager_def)
  have dg: "ResolveDigest ?R finA = Inr ''d1''" by (simp add: world_defs)
  have ne: "Digest pkgA_old \<noteq> ''d1''" by (simp add: pkgA_old_def)
  note t = Resolve_retrieves_fresh [OF rc stale_second_call]
  from t [THEN conjunct1] acc
  have 1: "\<exists>ks evs. list_all2 (checked ?R evs) ks [pkgA, pkgB]" by auto
  from t [THEN conjunct2, THEN conjunct1, rule_format, OF rp] acc
  have 2: "prefix ([pkgA_old, pkgB] @ [pkgA]) [pkgA_old, pkgB, pkgA, pkgB]" by simp
  from t [THEN conjunct2, THEN conjunct2, rule_format, OF tag hit rp] dg ne
  have 3: "fetched ?R finA = Inr pkgA \<and> Digest pkgA = ''d1''" by (auto simp: fin)
  have 4: "map_option fst (Resolve ?R depA stale_Manager) =
     Some (\<lparr>Package = ''A'', Type = ''Configuration'', Constraints = ''1.2.0''\<rparr>,
           [pkgA_old, pkgB, pkgA, pkgB], None)"
    by (simp add: stale_second_call)
  have 5: "fst (retrievePkg ?R depA stale_Manager) = Inr pkgA" by (simp add: rp)
  show ?thesis
    by (intro conjI rc 4 acc 1 tag hit [unfolded fin] 5 2 dg ne 3 [THEN conjunct1] 3 [THEN conjunct2])
qed

end
